theory Spec2Isabelle
  imports Main "HOL-Library.AList"
begin

section \<open>Strings as the server uses them\<close>

text \<open>
  JavaScript strings are modelled as \<open>string\<close>. The helpers below are the
  \<open>String.prototype\<close> methods and the regular expressions that the dev server
  applies to paths and directory entries.
\<close>

definition startsWith :: "string \<Rightarrow> string \<Rightarrow> bool" where
  "startsWith s p = (take (length p) s = p)"

definition endsWith :: "string \<Rightarrow> string \<Rightarrow> bool" where
  "endsWith s p = (length p \<le> length s \<and> drop (length s - length p) s = p)"

fun includes_str :: "string \<Rightarrow> string \<Rightarrow> bool" where
  "includes_str [] p = (p = [])"
| "includes_str (c # cs) p = (startsWith (c # cs) p \<or> includes_str cs p)"

text \<open>\<open>s.replace(p, '')\<close> with a string pattern: the first occurrence is removed.\<close>

fun replace_first_empty :: "string \<Rightarrow> string \<Rightarrow> string" where
  "replace_first_empty [] p = []"
| "replace_first_empty (c # cs) p =
     (if startsWith (c # cs) p then drop (length p) (c # cs)
      else c # replace_first_empty cs p)"

text \<open>\<open>s.split(sep)\<close> for a one-character separator.\<close>

fun split_str :: "char \<Rightarrow> string \<Rightarrow> string list" where
  "split_str sep [] = [[]]"
| "split_str sep (c # cs) =
     (if c = sep then [] # split_str sep cs
      else (case split_str sep cs of
              [] \<Rightarrow> [[c]]
            | w # ws \<Rightarrow> (c # w) # ws))"

text \<open>\<open>pathname.split('/').filter(Boolean)\<close>: the non-empty segments.\<close>

definition path_segments :: "string \<Rightarrow> string list" where
  "path_segments pathname = filter (\<lambda>s. s \<noteq> []) (split_str CHR ''/'' pathname)"

text \<open>The regular expression \<open>/^\[([^\]]+)\]$/\<close>.\<close>

definition dynamicFilePattern :: "string \<Rightarrow> bool" where
  "dynamicFilePattern s =
     (case s of
        [] \<Rightarrow> False
      | c # r \<Rightarrow> c = CHR ''['' \<and> r \<noteq> [] \<and> last r = CHR '']'' \<and> butlast r \<noteq> []
                 \<and> CHR '']'' \<notin> set (butlast r))"

text \<open>The regular expression \<open>/^\([^)]+\)$/\<close> of route groups.\<close>

definition routeGroupPattern :: "string \<Rightarrow> bool" where
  "routeGroupPattern s =
     (case s of
        [] \<Rightarrow> False
      | c # r \<Rightarrow> c = CHR ''('' \<and> r \<noteq> [] \<and> last r = CHR '')'' \<and> butlast r \<noteq> []
                 \<and> CHR '')'' \<notin> set (butlast r))"

text \<open>A loop that returns from the function at the first result it finds.\<close>

fun first_some :: "('a \<Rightarrow> 'b option) \<Rightarrow> 'a list \<Rightarrow> 'b option" where
  "first_some f [] = None"
| "first_some f (x # xs) = (case f x of Some y \<Rightarrow> Some y | None \<Rightarrow> first_some f xs)"

section \<open>The virtual file system\<close>

text \<open>
  The server reads the file system through \<open>this.exists\<close>, \<open>this.isDirectory\<close> and
  \<open>this.vfs.readdirSync\<close>. The last one throws on a path that is no directory; every
  caller wraps it in \<open>try/catch\<close>, so the exception is the value \<open>None\<close>.
\<close>

record vfs =
  exists :: "string \<Rightarrow> bool"
  isDirectory :: "string \<Rightarrow> bool"
  readdirSync :: "string \<Rightarrow> string list option"

text \<open>\<open>for (const ext of extensions) { if (this.exists(f(ext))) return f(ext) }\<close>\<close>

definition find_with_ext :: "vfs \<Rightarrow> string list \<Rightarrow> (string \<Rightarrow> string) \<Rightarrow> string option" where
  "find_with_ext fs exts f =
     first_some (\<lambda>ext. if exists fs (f ext) then Some (f ext) else None) exts"

section \<open>Pages router: \<open>resolvePageFile\<close> and \<open>resolveDynamicRoute\<close>\<close>

definition page_extensions :: "string list" where
  "page_extensions = [''.jsx'', ''.tsx'', ''.js'', ''.ts'']"

text \<open>The three tests that \<open>resolveDynamicRoute.tryPath\<close> applies to a directory entry.\<close>

definition is_dynamic_file :: "string \<Rightarrow> string \<Rightarrow> bool" where
  "is_dynamic_file entry ext =
     (endsWith entry ext \<and> dynamicFilePattern (replace_first_empty entry ext))"

definition is_dynamic_dir :: "string \<Rightarrow> bool" where
  "is_dynamic_dir entry =
     (startsWith entry ''['' \<and> endsWith entry '']'' \<and> \<not> includes_str entry ''.'')"

definition is_catch_all_file :: "string \<Rightarrow> string \<Rightarrow> bool" where
  "is_catch_all_file entry ext = (startsWith entry ''[...'' \<and> endsWith entry ('']'' @ ext))"

text \<open>
  \<open>tryPath\<close> of \<open>resolveDynamicRoute\<close>. Every path it returns contains a slash, so
  the truthiness tests \<open>if (exactResult)\<close> and \<open>if (dynamicResult)\<close> are tests
  for a result.
\<close>

fun resolveDynamicRoute_tryPath :: "vfs \<Rightarrow> string \<Rightarrow> string list \<Rightarrow> string option" where
  "resolveDynamicRoute_tryPath fs dirPath [] =
     find_with_ext fs page_extensions (\<lambda>ext. dirPath @ ''/index'' @ ext)"
| "resolveDynamicRoute_tryPath fs dirPath (current # rest) =
     (let exactPath = dirPath @ ''/'' @ current in
      case first_some (\<lambda>ext. if rest = [] \<and> exists fs (exactPath @ ext)
                              then Some (exactPath @ ext) else None) page_extensions of
        Some file \<Rightarrow> Some file
      | None \<Rightarrow>
         (case (if isDirectory fs exactPath then resolveDynamicRoute_tryPath fs exactPath rest else None) of
            Some exactResult \<Rightarrow> Some exactResult
          | None \<Rightarrow>
             (case readdirSync fs dirPath of
                None \<Rightarrow> None
              | Some entries \<Rightarrow>
                 first_some (\<lambda>entry.
                   case first_some (\<lambda>ext.
                          if is_dynamic_file entry ext \<and> rest = []
                             \<and> exists fs (dirPath @ ''/'' @ entry)
                          then Some (dirPath @ ''/'' @ entry) else None) page_extensions of
                     Some file \<Rightarrow> Some file
                   | None \<Rightarrow>
                      (case (if is_dynamic_dir entry \<and> isDirectory fs (dirPath @ ''/'' @ entry)
                             then resolveDynamicRoute_tryPath fs (dirPath @ ''/'' @ entry) rest else None) of
                         Some dynamicResult \<Rightarrow> Some dynamicResult
                       | None \<Rightarrow>
                          first_some (\<lambda>ext.
                            if is_catch_all_file entry ext \<and> exists fs (dirPath @ ''/'' @ entry)
                            then Some (dirPath @ ''/'' @ entry) else None) page_extensions))
                 entries)))"

definition resolveDynamicRoute :: "vfs \<Rightarrow> string \<Rightarrow> string \<Rightarrow> string option" where
  "resolveDynamicRoute fs pagesDir pathname =
     (let segments = path_segments pathname in
      if segments = [] then None else resolveDynamicRoute_tryPath fs pagesDir segments)"

definition resolvePageFile :: "vfs \<Rightarrow> string \<Rightarrow> string \<Rightarrow> string option" where
  "resolvePageFile fs pagesDir pathname0 =
     (let pathname = (if pathname0 = ''/'' then ''/index'' else pathname0) in
      case find_with_ext fs page_extensions (\<lambda>ext. pagesDir @ pathname @ ext) of
        Some filePath \<Rightarrow> Some filePath
      | None \<Rightarrow>
         (case find_with_ext fs page_extensions (\<lambda>ext. pagesDir @ pathname @ ''/index'' @ ext) of
            Some filePath \<Rightarrow> Some filePath
          | None \<Rightarrow> resolveDynamicRoute fs pagesDir pathname))"

declare resolveDynamicRoute_tryPath.simps(2) [simp del]

text \<open>
  A pages directory with the literal directory \<open>about\<close> next to the dynamic
  directory \<open>[slug]\<close>.
\<close>

definition fs_pages_demo :: vfs where
  "fs_pages_demo =
     \<lparr> exists = (\<lambda>p. p \<in> set [''/pages'', ''/pages/about'', ''/pages/[slug]'',
                              ''/pages/about/index.jsx'', ''/pages/about/team.jsx'',
                              ''/pages/[slug]/index.jsx'', ''/pages/[slug]/team.jsx'',
                              ''/pages/[slug]/jobs.jsx'']),
       isDirectory = (\<lambda>p. p \<in> set [''/pages'', ''/pages/about'', ''/pages/[slug]'']),
       readdirSync = (\<lambda>p. if p = ''/pages'' then Some [''[slug]'', ''about'']
                          else if p = ''/pages/about'' then Some [''index.jsx'', ''team.jsx'']
                          else if p = ''/pages/[slug]''
                               then Some [''index.jsx'', ''jobs.jsx'', ''team.jsx'']
                          else None) \<rparr>"

section \<open>The transform cache: \<open>transformAndServe\<close>\<close>

text \<open>
  \<open>ResponseData\<close>. Header objects are association lists in the order of the object
  literal; a body is the text handed to \<open>Buffer.from\<close>.
\<close>

record ResponseData =
  statusCode :: int
  statusMessage :: string
  headers :: "(string \<times> string) list"
  body :: string

text \<open>A thrown value: an \<open>Error\<close> with its message, or anything else.\<close>

datatype thrown = Error string | NotAnError

text \<open>\<open>String(n)\<close> for a length.\<close>

fun String_of_nat :: "nat \<Rightarrow> string" where
  "String_of_nat n =
     (if n < 10 then [char_of (48 + n)]
      else String_of_nat (n div 10) @ [char_of (48 + n mod 10)])"

text \<open>
  The value type of \<open>transformCache: Map<string, { code: string; hash: string }>\<close>. A
  JavaScript \<open>Map\<close> iterates in insertion order, and \<open>set\<close> on a key that is present
  keeps the key's place: the map is an association list with \<open>AList.update\<close>, its
  first pair the oldest key.
\<close>

record cache_entry =
  code :: string
  hash :: string

type_synonym transform_cache = "(string \<times> cache_entry) list"

text \<open>
  What \<open>transformAndServe\<close> takes from outside this file: \<open>simpleHash\<close> (imported
  from \<open>utils/hash\<close>), the compiler behind \<open>transformCode\<close>, which may throw, and
  \<open>JSON.stringify\<close> on a string.
\<close>

record transformer =
  simpleHash :: "string \<Rightarrow> string"
  transformCode :: "string \<Rightarrow> string \<Rightarrow> thrown + string"
  stringify_string :: "string \<Rightarrow> string"

text \<open>
  The server's state as far as \<open>transformAndServe\<close> touches it. \<open>transformCalls\<close>
  is a log of the calls of \<open>transformCode\<close> (content and file name), kept to count them.
\<close>

record server_state =
  transformCache :: transform_cache
  transformCalls :: "(string \<times> string) list"

definition cache_hit_response :: "string \<Rightarrow> ResponseData" where
  "cache_hit_response cached_code =
     \<lparr> statusCode = 200, statusMessage = ''OK'',
       headers = [(''Content-Type'', ''application/javascript; charset=utf-8''),
                  (''Content-Length'', String_of_nat (length cached_code)),
                  (''Cache-Control'', ''no-cache''),
                  (''X-Transformed'', ''true''),
                  (''X-Cache'', ''hit'')],
       body = cached_code \<rparr>"

definition transformed_response :: "string \<Rightarrow> ResponseData" where
  "transformed_response transformed =
     \<lparr> statusCode = 200, statusMessage = ''OK'',
       headers = [(''Content-Type'', ''application/javascript; charset=utf-8''),
                  (''Content-Length'', String_of_nat (length transformed)),
                  (''Cache-Control'', ''no-cache''),
                  (''X-Transformed'', ''true'')],
       body = transformed \<rparr>"

definition transform_error_response :: "transformer \<Rightarrow> thrown \<Rightarrow> ResponseData" where
  "transform_error_response env err =
     (let message = (case err of Error m \<Rightarrow> m | NotAnError \<Rightarrow> ''Transform failed'') in
      \<lparr> statusCode = 200, statusMessage = ''OK'',
        headers = [(''Content-Type'', ''application/javascript; charset=utf-8''),
                   (''X-Transform-Error'', ''true'')],
        body = ''// Transform Error: '' @ message @ [CHR 0x0A] @ ''console.error(''
               @ stringify_string env message @ '');'' \<rparr>)"

text \<open>
  \<open>if (this.transformCache.size > 500) { const firstKey = ...keys().next().value;
  if (firstKey) this.transformCache.delete(firstKey); }\<close>. The empty string is falsy.
\<close>

definition evict_oldest :: "transform_cache \<Rightarrow> transform_cache" where
  "evict_oldest cache =
     (if length cache > 500
      then (case cache of
              [] \<Rightarrow> cache
            | (firstKey, _) # _ \<Rightarrow> if firstKey \<noteq> [] then AList.delete firstKey cache else cache)
      else cache)"

text \<open>
  \<open>transformAndServe(filePath, urlPath)\<close>. The file system is read once, through
  \<open>vfs.readFileSync\<close>, which throws on a missing file; \<open>readFileSync\<close> is the file
  system at the time of the call. \<open>compile_and_cache\<close> is the part after the cache
  check: the call of \<open>transformCode\<close>, the \<open>set\<close> and the eviction.
\<close>

definition compile_and_cache ::
  "transformer \<Rightarrow> server_state \<Rightarrow> string \<Rightarrow> string \<Rightarrow> ResponseData \<times> server_state" where
  "compile_and_cache env st filePath content =
     (let st1 = st\<lparr>transformCalls := transformCalls st @ [(content, filePath)]\<rparr> in
      case transformCode env content filePath of
        Inl err \<Rightarrow> (transform_error_response env err, st1)
      | Inr transformed \<Rightarrow>
         (let cache1 = AList.update filePath
                         \<lparr>code = transformed, hash = simpleHash env content\<rparr>
                         (transformCache st1)
          in (transformed_response transformed,
              st1\<lparr>transformCache := evict_oldest cache1\<rparr>)))"

definition transformAndServe ::
  "transformer \<Rightarrow> (string \<Rightarrow> thrown + string) \<Rightarrow> server_state \<Rightarrow> string \<Rightarrow> string
     \<Rightarrow> ResponseData \<times> server_state" where
  "transformAndServe env readFileSync st filePath urlPath =
     (case readFileSync filePath of
        Inl err \<Rightarrow> (transform_error_response env err, st)
      | Inr content \<Rightarrow>
         (case map_of (transformCache st) filePath of
            None \<Rightarrow> compile_and_cache env st filePath content
          | Some cached \<Rightarrow>
             if hash cached = simpleHash env content
             then (cache_hit_response (code cached), st)
             else compile_and_cache env st filePath content))"

text \<open>The invariant of the cache: it is a map, within its bound, with no falsy key.\<close>

definition cache_inv :: "transform_cache \<Rightarrow> bool" where
  "cache_inv cache =
     (distinct (map fst cache) \<and> length cache \<le> 500 \<and> [] \<notin> set (map fst cache))"

text \<open>A request is answered from the cache when the entry of the path has the content's hash.\<close>

definition cache_valid :: "transformer \<Rightarrow> transform_cache \<Rightarrow> string \<Rightarrow> string \<Rightarrow> bool" where
  "cache_valid env cache filePath content =
     (case map_of cache filePath of
        None \<Rightarrow> False
      | Some c \<Rightarrow> hash c = simpleHash env content)"

text \<open>
  A transformer for the examples: the hash is the content itself, so distinct contents
  never share a hash, and compiling puts a comment before the source.
\<close>

definition demo_transformer :: transformer where
  "demo_transformer =
     \<lparr> simpleHash = (\<lambda>content. content),
       transformCode = (\<lambda>content filename. Inr (''/* '' @ filename @ '' */'' @ content)),
       stringify_string = (\<lambda>s. [CHR 0x22] @ s @ [CHR 0x22]) \<rparr>"

text \<open>
  A transformer whose hash is a 32-bit rolling hash of the content, written in decimal:
  a hash of this kind maps many contents to one value, \<open>Aa\<close> and \<open>BB\<close> among
  them. And a transformer whose compiler throws, as on a file with a syntax error.
\<close>

definition rolling_hash :: "string \<Rightarrow> string" where
  "rolling_hash content =
     String_of_nat (foldl (\<lambda>h c. (h * 31 + of_char c) mod 4294967296) 0 content)"

definition rolling_transformer :: transformer where
  "rolling_transformer =
     \<lparr> simpleHash = rolling_hash,
       transformCode = (\<lambda>content filename. Inr (''/* '' @ filename @ '' */'' @ content)),
       stringify_string = (\<lambda>s. [CHR 0x22] @ s @ [CHR 0x22]) \<rparr>"

definition failing_transformer :: transformer where
  "failing_transformer =
     \<lparr> simpleHash = rolling_hash,
       transformCode = (\<lambda>content filename. Inl (Error ''Unexpected token'')),
       stringify_string = (\<lambda>s. [CHR 0x22] @ s @ [CHR 0x22]) \<rparr>"

definition files_Aa :: "string \<Rightarrow> thrown + string" where
  "files_Aa p = (if p = ''/pages/index.tsx'' then Inr ''Aa'' else Inl (Error ''ENOENT''))"

definition files_BB :: "string \<Rightarrow> thrown + string" where
  "files_BB p = (if p = ''/pages/index.tsx'' then Inr ''BB'' else Inl (Error ''ENOENT''))"

definition files_A :: "string \<Rightarrow> thrown + string" where
  "files_A p = (if p = ''/pages/index.tsx'' then Inr ''A'' else Inl (Error ''ENOENT''))"

definition files_B :: "string \<Rightarrow> thrown + string" where
  "files_B p = (if p = ''/pages/index.tsx'' then Inr ''B'' else Inl (Error ''ENOENT''))"

definition fresh_server :: server_state where
  "fresh_server = \<lparr> transformCache = [], transformCalls = [] \<rparr>"

text \<open>The server after a request that compiled content A, and after one more for content B.\<close>

definition server_after_A :: server_state where
  "server_after_A =
     snd (transformAndServe demo_transformer files_A fresh_server
            ''/pages/index.tsx'' ''/pages/index.tsx'')"

definition server_after_A_B :: server_state where
  "server_after_A_B =
     snd (transformAndServe demo_transformer files_B server_after_A
            ''/pages/index.tsx'' ''/pages/index.tsx'')"

text \<open>A cache at its bound: 500 entries, the oldest \<open>/x.ts\<close>, then \<open>/xx.ts\<close> and so on.\<close>

definition full_key :: "nat \<Rightarrow> string" where
  "full_key n = ''/'' @ replicate (Suc n) CHR ''x'' @ ''.ts''"

definition full_server :: server_state where
  "full_server =
     \<lparr> transformCache = map (\<lambda>n. (full_key n, \<lparr>code = ''compiled'', hash = ''old''\<rparr>)) [0..<500],
       transformCalls = [] \<rparr>"

section \<open>The mock response objects handed to API handlers\<close>

text \<open>
  The calls a handler can make on a mock response. \<open>'j\<close> is the type of the values
  given to \<open>json\<close> (and to \<open>send\<close>, when \<open>typeof data === 'object'\<close>); \<open>write\<close>
  takes a string or a \<open>Buffer\<close>, which it turns into a string at once. \<open>redirect\<close> takes
  a status and an optional URL, or a URL alone.
\<close>

datatype 'j handler_call =
    Status int
  | SetHeader string string
  | Write string
  | Json 'j
  | Send "string + 'j"
  | End "string option"
  | Redirect "int + string" "string option"

text \<open>
  \<open>JSON.stringify\<close> is taken from the platform. It throws on some values (a \<open>BigInt\<close>,
  a circular structure), gives \<open>undefined\<close> on others (\<open>undefined\<close>, a function, a
  symbol) and a text on the rest: \<open>Inl\<close> is the exception, \<open>Inr None\<close> is
  \<open>undefined\<close>. A method that throws keeps the effects it had before the exception, and
  the handler may catch the exception and go on calling methods.
\<close>

type_synonym 'j stringifier = "'j \<Rightarrow> thrown + string option"

text \<open>\<open>url || '/'\<close> and \<open>if (data)\<close>: \<open>undefined\<close> and the empty string are falsy.\<close>

definition truthy :: "string option \<Rightarrow> bool" where
  "truthy data = (case data of None \<Rightarrow> False | Some s \<Rightarrow> s \<noteq> [])"

definition or_default :: "string option \<Rightarrow> string \<Rightarrow> string" where
  "or_default url d = (if truthy url then the url else d)"

text \<open>
  \<open>responseBody += chunk\<close>, where \<open>responseBody\<close> holds a string or, after
  \<open>json\<close> of a value without a JSON text, \<open>undefined\<close>.
\<close>

definition js_append :: "string option \<Rightarrow> string \<Rightarrow> string option" where
  "js_append b s = Some ((case b of None \<Rightarrow> ''undefined'' | Some t \<Rightarrow> t) @ s)"

subsection \<open>\<open>createMockResponse\<close>: the buffered response\<close>

text \<open>
  The closure variables of \<open>createMockResponse\<close>; \<open>this_headersSent\<close> is the
  property \<open>headersSent\<close> of the returned object, and \<open>resolveEnded_calls\<close> counts the
  calls of \<open>resolveEnded\<close>, the resolver of the promise that \<open>waitForEnd\<close> returns.
\<close>

record MockResponse =
  res_statusCode :: int
  res_statusMessage :: string
  res_headers :: "(string \<times> string) list"
  responseBody :: "string option"
  ended :: bool
  headersSent :: bool
  this_headersSent :: bool
  resolveEnded_calls :: nat

definition createMockResponse :: MockResponse where
  "createMockResponse =
     \<lparr> res_statusCode = 200, res_statusMessage = ''OK'', res_headers = [],
       responseBody = Some [], ended = False, headersSent = False,
       this_headersSent = False, resolveEnded_calls = 0 \<rparr>"

definition markEnded :: "MockResponse \<Rightarrow> MockResponse" where
  "markEnded r =
     (if \<not> ended r
      then r\<lparr>ended := True, resolveEnded_calls := resolveEnded_calls r + 1\<rparr>
      else r)"

text \<open>
  \<open>json\<close> sets the header, then assigns \<open>JSON.stringify(data)\<close>, then ends: when
  \<open>JSON.stringify\<close> throws, the header is set and nothing else has happened.
\<close>

definition res_json :: "'j stringifier \<Rightarrow> 'j \<Rightarrow> MockResponse \<Rightarrow> MockResponse" where
  "res_json stringify data r =
     (let r1 = r\<lparr>res_headers := AList.update ''Content-Type''
                                     ''application/json; charset=utf-8'' (res_headers r)\<rparr>
      in case stringify data of
           Inl err \<Rightarrow> r1
         | Inr text \<Rightarrow> markEnded (r1\<lparr>responseBody := text\<rparr>))"

fun res_call :: "'j stringifier \<Rightarrow> MockResponse \<Rightarrow> 'j handler_call \<Rightarrow> MockResponse" where
  "res_call stringify r (Status code') = r\<lparr>res_statusCode := code'\<rparr>"
| "res_call stringify r (SetHeader name v) = r\<lparr>res_headers := AList.update name v (res_headers r)\<rparr>"
| "res_call stringify r (Write chunk) =
     (let r1 = (if \<not> headersSent r then r\<lparr>headersSent := True, this_headersSent := True\<rparr>
                else r)
      in r1\<lparr>responseBody := js_append (responseBody r1) chunk\<rparr>)"
| "res_call stringify r (Json data) = res_json stringify data r"
| "res_call stringify r (Send (Inr data)) = res_json stringify data r"
| "res_call stringify r (Send (Inl data)) = markEnded (r\<lparr>responseBody := Some data\<rparr>)"
| "res_call stringify r (End data) =
     markEnded (if truthy data then r\<lparr>responseBody := js_append (responseBody r) (the data)\<rparr>
                else r)"
| "res_call stringify r (Redirect (Inl status) url) =
     markEnded (r\<lparr>res_statusCode := status,
                  res_headers := AList.update ''Location'' (or_default url ''/'') (res_headers r)\<rparr>)"
| "res_call stringify r (Redirect (Inr url) _) =
     markEnded (r\<lparr>res_statusCode := 307,
                  res_headers := AList.update ''Location'' url (res_headers r)\<rparr>)"

text \<open>What a handler does to the response: its calls, in order.\<close>

definition res_calls :: "'j stringifier \<Rightarrow> 'j handler_call list \<Rightarrow> MockResponse" where
  "res_calls stringify cs = foldl (res_call stringify) createMockResponse cs"

text \<open>The terminal methods, the calls that produce bytes of the body, and \<open>write\<close>.\<close>

fun is_terminal :: "'j handler_call \<Rightarrow> bool" where
  "is_terminal (Json _) = True"
| "is_terminal (Send _) = True"
| "is_terminal (End _) = True"
| "is_terminal (Redirect _ _) = True"
| "is_terminal _ = False"

fun produces_bytes :: "'j handler_call \<Rightarrow> bool" where
  "produces_bytes (Write _) = True"
| "produces_bytes (Json _) = True"
| "produces_bytes (Send _) = True"
| "produces_bytes (End data) = truthy data"
| "produces_bytes _ = False"

fun is_write :: "'j handler_call \<Rightarrow> bool" where
  "is_write (Write _) = True"
| "is_write _ = False"

text \<open>
  The calls that throw: \<open>json\<close>, and \<open>send\<close> of an object, of a value on which
  \<open>JSON.stringify\<close> throws. A terminal call that returns has reached its \<open>markEnded()\<close>.
\<close>

fun throws :: "'j stringifier \<Rightarrow> 'j handler_call \<Rightarrow> bool" where
  "throws stringify (Json data) = isl (stringify data)"
| "throws stringify (Send (Inr data)) = isl (stringify data)"
| "throws stringify _ = False"

definition completes :: "'j stringifier \<Rightarrow> 'j handler_call \<Rightarrow> bool" where
  "completes stringify c = (is_terminal c \<and> \<not> throws stringify c)"

subsection \<open>\<open>createStreamingMockResponse\<close>: the streaming response\<close>

text \<open>
  The three callbacks are recorded as events, in the order of the calls; they are taken
  to return. \<open>onStart\<close> receives the status and the header object as they are at the time
  of the call; the chunk of \<open>onChunk\<close> is a string or, from \<open>json\<close>, \<open>undefined\<close>.
\<close>

datatype stream_event =
    OnStart int string "(string \<times> string) list"
  | OnChunk "string option"
  | OnEnd

record StreamingMockResponse =
  str_statusCode :: int
  str_statusMessage :: string
  str_headers :: "(string \<times> string) list"
  str_ended :: bool
  str_headersSent :: bool
  events :: "stream_event list"

definition createStreamingMockResponse :: StreamingMockResponse where
  "createStreamingMockResponse =
     \<lparr> str_statusCode = 200, str_statusMessage = ''OK'', str_headers = [],
       str_ended = False, str_headersSent = False, events = [] \<rparr>"

definition sendHeaders :: "StreamingMockResponse \<Rightarrow> StreamingMockResponse" where
  "sendHeaders r =
     (if \<not> str_headersSent r
      then r\<lparr>str_headersSent := True,
             events := events r @ [OnStart (str_statusCode r) (str_statusMessage r) (str_headers r)]\<rparr>
      else r)"

definition onChunk :: "string option \<Rightarrow> StreamingMockResponse \<Rightarrow> StreamingMockResponse" where
  "onChunk data r = r\<lparr>events := events r @ [OnChunk data]\<rparr>"

definition str_markEnded :: "StreamingMockResponse \<Rightarrow> StreamingMockResponse" where
  "str_markEnded r =
     (if \<not> str_ended r
      then (let r1 = sendHeaders r in r1\<lparr>str_ended := True, events := events r1 @ [OnEnd]\<rparr>)
      else r)"

text \<open>
  \<open>json\<close> sets the header and calls \<open>sendHeaders()\<close>; then \<open>JSON.stringify(data)\<close>
  is evaluated, and when it throws neither \<open>onChunk\<close> nor \<open>markEnded()\<close> is reached.
\<close>

definition str_json :: "'j stringifier \<Rightarrow> 'j \<Rightarrow> StreamingMockResponse \<Rightarrow> StreamingMockResponse" where
  "str_json stringify data r =
     (let r1 = sendHeaders (r\<lparr>str_headers := AList.update ''Content-Type''
                                     ''application/json; charset=utf-8'' (str_headers r)\<rparr>)
      in case stringify data of
           Inl err \<Rightarrow> r1
         | Inr text \<Rightarrow> str_markEnded (onChunk text r1))"

fun str_call :: "'j stringifier \<Rightarrow> StreamingMockResponse \<Rightarrow> 'j handler_call \<Rightarrow> StreamingMockResponse" where
  "str_call stringify r (Status code') = r\<lparr>str_statusCode := code'\<rparr>"
| "str_call stringify r (SetHeader name v) = r\<lparr>str_headers := AList.update name v (str_headers r)\<rparr>"
| "str_call stringify r (Write chunk) = onChunk (Some chunk) (sendHeaders r)"
| "str_call stringify r (Json data) = str_json stringify data r"
| "str_call stringify r (Send (Inr data)) = str_json stringify data r"
| "str_call stringify r (Send (Inl data)) = str_markEnded (onChunk (Some data) (sendHeaders r))"
| "str_call stringify r (End data) =
     str_markEnded (if truthy data then onChunk data (sendHeaders r) else r)"
| "str_call stringify r (Redirect (Inl status) url) =
     str_markEnded (r\<lparr>str_statusCode := status,
                      str_headers := AList.update ''Location'' (or_default url ''/'') (str_headers r)\<rparr>)"
| "str_call stringify r (Redirect (Inr url) _) =
     str_markEnded (r\<lparr>str_statusCode := 307,
                      str_headers := AList.update ''Location'' url (str_headers r)\<rparr>)"

definition str_calls :: "'j stringifier \<Rightarrow> 'j handler_call list \<Rightarrow> StreamingMockResponse" where
  "str_calls stringify cs = foldl (str_call stringify) createStreamingMockResponse cs"

text \<open>
  The order of the callbacks that Claim C9 states, as a test on a list of events: one
  \<open>onStart\<close>, before every \<open>onChunk\<close>; one \<open>onEnd\<close>, after every \<open>onChunk\<close>.
\<close>

fun is_OnStart :: "stream_event \<Rightarrow> bool" where
  "is_OnStart (OnStart _ _ _) = True"
| "is_OnStart _ = False"

fun is_OnChunk :: "stream_event \<Rightarrow> bool" where
  "is_OnChunk (OnChunk _) = True"
| "is_OnChunk _ = False"

definition callbacks_in_order :: "stream_event list \<Rightarrow> bool" where
  "callbacks_in_order tr =
     (length (filter is_OnStart tr) = 1
      \<and> length (filter (\<lambda>e. e = OnEnd) tr) = 1
      \<and> \<not> list_ex is_OnChunk (takeWhile (\<lambda>e. \<not> is_OnStart e) tr)
      \<and> \<not> list_ex is_OnChunk (dropWhile (\<lambda>e. e \<noteq> OnEnd) tr))"

text \<open>
  The chunks that a call hands to \<open>onChunk\<close>, and the calls that reach \<open>sendHeaders()\<close>
  on a response that has not ended: \<open>write\<close> and the terminal methods.
\<close>

fun chunks_of :: "'j stringifier \<Rightarrow> 'j handler_call \<Rightarrow> string option list" where
  "chunks_of stringify (Write chunk) = [Some chunk]"
| "chunks_of stringify (Json data) = (case stringify data of Inl err \<Rightarrow> [] | Inr text \<Rightarrow> [text])"
| "chunks_of stringify (Send (Inr data)) =
     (case stringify data of Inl err \<Rightarrow> [] | Inr text \<Rightarrow> [text])"
| "chunks_of stringify (Send (Inl data)) = [Some data]"
| "chunks_of stringify (End data) = (if truthy data then [data] else [])"
| "chunks_of stringify _ = []"

definition invokes_callback :: "'j handler_call \<Rightarrow> bool" where
  "invokes_callback c = (is_write c \<or> is_terminal c)"

text \<open>
  The shape of the events of a streaming response: none before the headers are sent;
  after that an \<open>onStart\<close> first and nowhere else, and one \<open>onEnd\<close> once the response
  has ended.
\<close>

definition stream_inv :: "StreamingMockResponse \<Rightarrow> bool" where
  "stream_inv r =
     (if events r = [] then \<not> str_headersSent r \<and> \<not> str_ended r
      else str_headersSent r \<and> is_OnStart (hd (events r))
           \<and> \<not> list_ex is_OnStart (tl (events r))
           \<and> length (filter (\<lambda>e. e = OnEnd) (events r)) = (if str_ended r then 1 else 0))"

text \<open>
  Stringifiers for the examples, on values that are their own JSON text: one that
  always gives the text, and one that throws on the value \<open>circular\<close>.
\<close>

definition text_stringify :: "string stringifier" where
  "text_stringify s = Inr (Some s)"

definition strict_stringify :: "string stringifier" where
  "strict_stringify s =
     (if s = ''circular'' then Inl (Error ''Converting circular structure to JSON'')
      else Inr (Some s))"

section \<open>Route handlers of the App router: \<open>handleAppRouteHandler\<close>\<close>

text \<open>\<open>toUpperCase\<close> and \<open>toLowerCase\<close>, on the ASCII letters of a method name.\<close>

definition upper_char :: "char \<Rightarrow> char" where
  "upper_char c =
     (if 97 \<le> (of_char c :: nat) \<and> (of_char c :: nat) \<le> 122
      then char_of ((of_char c :: nat) - 32) else c)"

definition lower_char :: "char \<Rightarrow> char" where
  "lower_char c =
     (if 65 \<le> (of_char c :: nat) \<and> (of_char c :: nat) \<le> 90
      then char_of ((of_char c :: nat) + 32) else c)"

definition toUpperCase :: "string \<Rightarrow> string" where
  "toUpperCase s = map upper_char s"

definition toLowerCase :: "string \<Rightarrow> string" where
  "toLowerCase s = map lower_char s"

text \<open>
  A function that a property read of \<open>module.exports\<close> can give: one that the route
  module declares, or a built-in of the platform, by its name.
\<close>

datatype 'h js_function = Declared 'h | Builtin string

text \<open>
  The value of a property: a function, or another value, which is truthy or falsy. A
  property that is not there reads as \<open>undefined\<close>.
\<close>

datatype 'h export_value = HandlerFunction "'h js_function" | OtherTruthy | OtherFalsy

text \<open>
  \<open>module.exports\<close> after the module has run. It starts as the object literal
  \<open>{}\<close>, to which the module adds its exports as properties, and the module may
  replace it: by an object with properties of its own, or by \<open>null\<close> or
  \<open>undefined\<close>, on which a property read throws.
\<close>

datatype 'h module_exports =
    ExportsObject "(string \<times> 'h export_value) list"
  | ExportsNullish

text \<open>
  An object literal inherits from \<open>Object.prototype\<close>, which the platform provides:
  \<open>constructor\<close> is the function \<open>Object\<close>, \<open>__proto__\<close> reads as the prototype
  object, and the other properties are methods.
\<close>

definition Object_prototype :: "string \<Rightarrow> 'h export_value option" where
  "Object_prototype name =
     (if name = ''constructor'' then Some (HandlerFunction (Builtin ''Object''))
      else if name = ''__proto__'' then Some OtherTruthy
      else if name \<in> set [''hasOwnProperty'', ''isPrototypeOf'', ''propertyIsEnumerable'',
                            ''toLocaleString'', ''toString'', ''valueOf'', ''__defineGetter__'',
                            ''__defineSetter__'', ''__lookupGetter__'', ''__lookupSetter__'']
      then Some (HandlerFunction (Builtin name))
      else None)"

text \<open>\<open>module.exports[name]\<close>: the own property, or else the inherited one.\<close>

definition get_property :: "'h module_exports \<Rightarrow> string \<Rightarrow> thrown + 'h export_value option" where
  "get_property exports name =
     (case exports of
        ExportsNullish \<Rightarrow> Inl (Error ''Cannot read properties of null'')
      | ExportsObject own \<Rightarrow>
          (case map_of own name of
             Some v \<Rightarrow> Inr (Some v)
           | None \<Rightarrow> Inr (Object_prototype name)))"

definition js_truthy :: "'h export_value option \<Rightarrow> bool" where
  "js_truthy v = (case v of None \<Rightarrow> False | Some OtherFalsy \<Rightarrow> False | Some _ \<Rightarrow> True)"

text \<open>\<open>module.exports[methodUpper] || module.exports[methodUpper.toLowerCase()]\<close>\<close>

definition find_method_handler ::
  "'h module_exports \<Rightarrow> string \<Rightarrow> thrown + 'h export_value option" where
  "find_method_handler exports method =
     (let methodUpper = toUpperCase method in
      case get_property exports methodUpper of
        Inl err \<Rightarrow> Inl err
      | Inr v \<Rightarrow> if js_truthy v then Inr v
                 else get_property exports (toLowerCase methodUpper))"

text \<open>
  What a called function returns, as \<open>handleAppRouteHandler\<close> tells the cases apart: a
  \<open>Response\<close>, with the outcome of reading its text; another object, with the outcome
  of \<open>JSON.stringify\<close> on it (\<open>Inl\<close> when that throws or gives no text for
  \<open>Buffer.from\<close>); or any other value, with \<open>String(response || '')\<close>.
\<close>

datatype handler_result =
    WebResponse int string "(string \<times> string) list" "thrown + string"
  | PlainObject "thrown + string"
  | OtherValue string

text \<open>
  What \<open>handleAppRouteHandler\<close> takes from outside: reading the file, the transform to
  CommonJS, running the module to get its exports, calling a function (with the request
  built from the upper-case method, the URL, the headers and the body, and with the route
  parameters), and \<open>JSON.stringify\<close> on a string. Each of the first four may throw.
\<close>

record 'h route_runtime =
  rt_readFileSync :: "string \<Rightarrow> thrown + string"
  rt_transformApiHandler :: "string \<Rightarrow> string \<Rightarrow> thrown + string"
  rt_run_module :: "string \<Rightarrow> thrown + 'h module_exports"
  rt_call_handler :: "'h js_function \<Rightarrow> string \<Rightarrow> string \<Rightarrow> (string \<times> string) list \<Rightarrow> string option
                        \<Rightarrow> thrown + handler_result"
  rt_stringify_string :: "string \<Rightarrow> string"

definition json_error_body :: "(string \<Rightarrow> string) \<Rightarrow> string \<Rightarrow> string" where
  "json_error_body stringify_str message =
     ''{'' @ [CHR 0x22] @ ''error'' @ [CHR 0x22] @ '':'' @ stringify_str message @ ''}''"

definition internal_server_error :: "(string \<Rightarrow> string) \<Rightarrow> thrown \<Rightarrow> ResponseData" where
  "internal_server_error stringify_str err =
     \<lparr> statusCode = 500, statusMessage = ''Internal Server Error'',
       headers = [(''Content-Type'', ''application/json; charset=utf-8'')],
       body = json_error_body stringify_str
                (case err of Error m \<Rightarrow> m | NotAnError \<Rightarrow> ''Internal Server Error'') \<rparr>"

definition method_not_allowed :: "(string \<Rightarrow> string) \<Rightarrow> string \<Rightarrow> ResponseData" where
  "method_not_allowed stringify_str method =
     \<lparr> statusCode = 405, statusMessage = ''Method Not Allowed'',
       headers = [(''Content-Type'', ''application/json; charset=utf-8'')],
       body = json_error_body stringify_str (''Method '' @ method @ '' not allowed'') \<rparr>"

definition convert_handler_result :: "handler_result \<Rightarrow> thrown + ResponseData" where
  "convert_handler_result res =
     (case res of
        WebResponse status statusText respHeaders text_result \<Rightarrow>
          (case text_result of
             Inl err \<Rightarrow> Inl err
           | Inr respBody \<Rightarrow>
               Inr \<lparr> statusCode = status,
                     statusMessage = (if statusText \<noteq> [] then statusText else ''OK''),
                     headers = respHeaders, body = respBody \<rparr>)
      | PlainObject json_result \<Rightarrow>
          (case json_result of
             Inl err \<Rightarrow> Inl err
           | Inr json \<Rightarrow>
               Inr \<lparr> statusCode = 200, statusMessage = ''OK'',
                     headers = [(''Content-Type'', ''application/json; charset=utf-8'')],
                     body = json \<rparr>)
      | OtherValue text \<Rightarrow>
          Inr \<lparr> statusCode = 200, statusMessage = ''OK'',
                headers = [(''Content-Type'', ''text/plain; charset=utf-8'')], body = text \<rparr>)"

text \<open>
  \<open>handleAppRouteHandler\<close>. The body is passed to the handler unless the method is
  \<open>GET\<close> or \<open>HEAD\<close>; every exception ends in the 500 response of the \<open>catch\<close>.
\<close>

definition handleAppRouteHandler ::
  "'h route_runtime \<Rightarrow> string \<Rightarrow> string \<Rightarrow> (string \<times> string) list \<Rightarrow> string option
     \<Rightarrow> string \<Rightarrow> string \<Rightarrow> ResponseData" where
  "handleAppRouteHandler rt method pathname hdrs reqBody routeFile search =
     (case rt_readFileSync rt routeFile of
        Inl err \<Rightarrow> internal_server_error (rt_stringify_string rt) err
      | Inr source \<Rightarrow>
     (case rt_transformApiHandler rt source routeFile of
        Inl err \<Rightarrow> internal_server_error (rt_stringify_string rt) err
      | Inr transformed \<Rightarrow>
     (case rt_run_module rt transformed of
        Inl err \<Rightarrow> internal_server_error (rt_stringify_string rt) err
      | Inr exports \<Rightarrow>
         (let methodUpper = toUpperCase method in
          case find_method_handler exports method of
            Inl err \<Rightarrow> internal_server_error (rt_stringify_string rt) err
          | Inr (Some (HandlerFunction handler)) \<Rightarrow>
              (case rt_call_handler rt handler methodUpper (pathname @ search) hdrs
                      (if methodUpper \<noteq> ''GET'' \<and> methodUpper \<noteq> ''HEAD'' then reqBody else None) of
                 Inl err \<Rightarrow> internal_server_error (rt_stringify_string rt) err
               | Inr res \<Rightarrow>
                   (case convert_handler_result res of
                      Inl err \<Rightarrow> internal_server_error (rt_stringify_string rt) err
                    | Inr response \<Rightarrow> response))
          | Inr _ \<Rightarrow> method_not_allowed (rt_stringify_string rt) method))))"

text \<open>
  A route module that exports \<open>GET\<close> and nothing else, for the examples. Its handler
  answers with a \<open>Response\<close>; the built-in \<open>Object\<close>, called with the request, returns
  the request, an object whose JSON text is \<open>{}\<close>.
\<close>

definition get_only_exports :: "unit module_exports" where
  "get_only_exports = ExportsObject [(''GET'', HandlerFunction (Declared ()))]"

definition get_only_runtime :: "unit route_runtime" where
  "get_only_runtime =
     \<lparr> rt_readFileSync = (\<lambda>p. if p = ''/app/api/items/route.ts''
                                then Inr ''export async function GET() { return new Response() }''
                                else Inl (Error ''ENOENT'')),
       rt_transformApiHandler = (\<lambda>source filename. Inr source),
       rt_run_module = (\<lambda>source. Inr get_only_exports),
       rt_call_handler = (\<lambda>f m url hdrs b.
          case f of
            Declared h \<Rightarrow> Inr (WebResponse 200 [] [] (Inr []))
          | Builtin name \<Rightarrow> if name = ''Object'' then Inr (PlainObject (Inr ''{}''))
                            else Inl (Error ''TypeError'')),
       rt_stringify_string = (\<lambda>s. [CHR 0x22] @ s @ [CHR 0x22]) \<rparr>"

section \<open>Pages-router API requests: \<open>handleRequest\<close> and \<open>createMockRequest\<close>\<close>

text \<open>
  \<open>new URL(input, 'http://localhost')\<close> belongs to the platform. The server reads the
  \<open>pathname\<close>, the \<open>search\<close> string and the \<open>searchParams\<close> of the result.
\<close>

record URL =
  url_pathname :: string
  url_search :: string
  url_searchParams :: "(string \<times> string) list"

text \<open>
  What the request path takes from the platform: the URL parser, \<open>JSON.parse\<close> and
  \<open>decodeURIComponent\<close>; the last two may throw.
\<close>

record 'j platform =
  new_URL :: "string \<Rightarrow> URL"
  JSON_parse :: "string \<Rightarrow> thrown + 'j"
  decodeURIComponent :: "string \<Rightarrow> thrown + string"

text \<open>
  Two facts about the platform's parser, for the base \<open>http://localhost\<close>: a pathname
  holds no question mark and no hash sign (they end the path or are percent-encoded), and
  an input without a question mark has no query.
\<close>

definition url_parser_ok :: "'j platform \<Rightarrow> bool" where
  "url_parser_ok pf =
     ((\<forall>u. CHR ''?'' \<notin> set (url_pathname (new_URL pf u)))
      \<and> (\<forall>u. CHR ''?'' \<notin> set u \<longrightarrow> url_searchParams (new_URL pf u) = []))"

record server_config =
  assetPrefix :: string
  basePath :: string

definition is_digit :: "char \<Rightarrow> bool" where
  "is_digit c = (48 \<le> (of_char c :: nat) \<and> (of_char c :: nat) \<le> 57)"

text \<open>The length of the match of \<open>/^\/__virtual__\/\d+/\<close>, if there is one.\<close>

definition virtualPrefixMatch :: "string \<Rightarrow> nat option" where
  "virtualPrefixMatch p =
     (if startsWith p ''/__virtual__/''
      then (let digits = takeWhile is_digit (drop 13 p) in
            if digits \<noteq> [] then Some (13 + length digits) else None)
      else None)"

text \<open>\<open>s || '/'\<close>\<close>

definition or_slash :: "string \<Rightarrow> string" where
  "or_slash s = (if s = [] then ''/'' else s)"

text \<open>
  The start of \<open>handleRequest\<close>: the pathname of the parsed URL, without the virtual
  prefix, the asset prefix and the base path.
\<close>

definition strip_virtual_prefix :: "string \<Rightarrow> string" where
  "strip_virtual_prefix p =
     (case virtualPrefixMatch p of
        Some n \<Rightarrow> or_slash (drop n p)
      | None \<Rightarrow> p)"

definition strip_assetPrefix :: "server_config \<Rightarrow> string \<Rightarrow> string" where
  "strip_assetPrefix cfg p =
     (if assetPrefix cfg \<noteq> [] \<and> startsWith p (assetPrefix cfg)
      then (let rest = drop (length (assetPrefix cfg)) p in
            if rest = [] \<or> startsWith rest ''/''
            then (let p1 = or_slash rest in
                  if startsWith p1 ''//'' then drop 1 p1 else p1)
            else p)
      else p)"

definition strip_basePath :: "server_config \<Rightarrow> string \<Rightarrow> string" where
  "strip_basePath cfg p =
     (if basePath cfg \<noteq> [] \<and> startsWith p (basePath cfg)
      then (let rest = drop (length (basePath cfg)) p in
            if rest = [] \<or> startsWith rest ''/'' then or_slash rest else p)
      else p)"

definition request_pathname :: "'j platform \<Rightarrow> server_config \<Rightarrow> string \<Rightarrow> string" where
  "request_pathname pf cfg url =
     strip_basePath cfg (strip_assetPrefix cfg
       (strip_virtual_prefix (url_pathname (new_URL pf url))))"

subsection \<open>\<open>parseCookies\<close> and \<open>createMockRequest\<close>\<close>

definition is_space :: "char \<Rightarrow> bool" where
  "is_space c = ((of_char c :: nat) \<in> {9, 10, 11, 12, 13, 32})"

definition trim :: "string \<Rightarrow> string" where
  "trim s = rev (dropWhile is_space (rev (dropWhile is_space s)))"

text \<open>
  The body of the \<open>forEach\<close> in \<open>parseCookies\<close>: \<open>name\<close> and \<open>value\<close> are the first
  two parts of the trimmed cookie, split at the equals signs; a missing or empty part is
  falsy. \<open>decodeURIComponent\<close> may throw, which ends the loop.
\<close>

fun parseCookies_loop ::
  "'j platform \<Rightarrow> string list \<Rightarrow> (string \<times> string) list \<Rightarrow> thrown + (string \<times> string) list" where
  "parseCookies_loop pf [] cookies = Inr cookies"
| "parseCookies_loop pf (cookie # others) cookies =
     (case split_str CHR ''='' (trim cookie) of
        name # v # _ \<Rightarrow>
          (if name \<noteq> [] \<and> v \<noteq> []
           then (case decodeURIComponent pf v of
                   Inl err \<Rightarrow> Inl err
                 | Inr decoded \<Rightarrow> parseCookies_loop pf others (AList.update name decoded cookies))
           else parseCookies_loop pf others cookies)
      | _ \<Rightarrow> parseCookies_loop pf others cookies)"

definition parseCookies :: "'j platform \<Rightarrow> string \<Rightarrow> thrown + (string \<times> string) list" where
  "parseCookies pf cookieHeader =
     (if cookieHeader = [] then Inr []
      else parseCookies_loop pf (split_str CHR '';'' cookieHeader) [])"

text \<open>\<open>Object.fromEntries\<close>: the pairs are assigned in order.\<close>

definition Object_fromEntries :: "(string \<times> string) list \<Rightarrow> (string \<times> string) list" where
  "Object_fromEntries entries = foldl (\<lambda>obj (k, v). AList.update k v obj) [] entries"

record 'j MockRequest =
  req_method :: string
  req_url :: string
  req_headers :: "(string \<times> string) list"
  query :: "(string \<times> string) list"
  req_body :: "'j option"
  cookies :: "(string \<times> string) list"

text \<open>
  \<open>createMockRequest(method, pathname, headers, body)\<close>. The properties of the object
  literal are evaluated in order; \<open>JSON.parse\<close> and \<open>parseCookies\<close> may throw.
\<close>

definition createMockRequest ::
  "'j platform \<Rightarrow> string \<Rightarrow> string \<Rightarrow> (string \<times> string) list \<Rightarrow> string option
     \<Rightarrow> thrown + 'j MockRequest" where
  "createMockRequest pf httpMethod pathname hdrs reqBody =
     (let url = new_URL pf pathname;
          q = Object_fromEntries (url_searchParams url) in
      case (case reqBody of
              None \<Rightarrow> Inr None
            | Some b \<Rightarrow> (case JSON_parse pf b of Inl err \<Rightarrow> Inl err | Inr j \<Rightarrow> Inr (Some j))) of
        Inl err \<Rightarrow> Inl err
      | Inr parsed \<Rightarrow>
         (case parseCookies pf (case map_of hdrs ''cookie'' of None \<Rightarrow> [] | Some c \<Rightarrow> c) of
            Inl err \<Rightarrow> Inl err
          | Inr cs \<Rightarrow>
             Inr \<lparr> req_method = httpMethod, req_url = pathname, req_headers = hdrs,
                   query = q, req_body = parsed, cookies = cs \<rparr>))"

text \<open>
  The mock request of a Pages-router API request: \<open>handleRequest\<close> hands its pathname
  to \<open>handleApiRoute\<close> when it starts with \<open>/api/\<close>, and \<open>handleApiRoute\<close> hands it to
  \<open>createMockRequest\<close>. \<open>handleStreamingRequest\<close> does the same with the pathname of
  the parsed URL as it is.
\<close>

definition api_mock_request ::
  "'j platform \<Rightarrow> server_config \<Rightarrow> string \<Rightarrow> string \<Rightarrow> (string \<times> string) list
     \<Rightarrow> string option \<Rightarrow> (thrown + 'j MockRequest) option" where
  "api_mock_request pf cfg httpMethod url hdrs reqBody =
     (let pathname = request_pathname pf cfg url in
      if startsWith pathname ''/api/''
      then Some (createMockRequest pf httpMethod pathname hdrs reqBody)
      else None)"

definition streaming_mock_request ::
  "'j platform \<Rightarrow> string \<Rightarrow> string \<Rightarrow> (string \<times> string) list
     \<Rightarrow> string option \<Rightarrow> (thrown + 'j MockRequest) option" where
  "streaming_mock_request pf httpMethod url hdrs reqBody =
     (let pathname = url_pathname (new_URL pf url) in
      if startsWith pathname ''/api/''
      then Some (createMockRequest pf httpMethod pathname hdrs reqBody)
      else None)"

text \<open>
  A parser for the examples: the fragment starts at the first hash sign, the query at the
  first question mark before it, and the query is a list of \<open>name=value\<close> pairs.
\<close>

definition query_pairs :: "string \<Rightarrow> (string \<times> string) list" where
  "query_pairs q =
     map (\<lambda>p. (takeWhile (\<lambda>c. c \<noteq> CHR ''='') p, drop 1 (dropWhile (\<lambda>c. c \<noteq> CHR ''='') p)))
       (filter (\<lambda>p. p \<noteq> []) (split_str CHR ''&'' q))"

definition simple_URL :: "string \<Rightarrow> URL" where
  "simple_URL input =
     (let no_fragment = takeWhile (\<lambda>c. c \<noteq> CHR ''#'') input;
          path = takeWhile (\<lambda>c. c \<noteq> CHR ''?'') no_fragment;
          q = drop 1 (dropWhile (\<lambda>c. c \<noteq> CHR ''?'') no_fragment)
      in \<lparr> url_pathname = or_slash path,
            url_search = (if q = [] then [] else CHR ''?'' # q),
            url_searchParams = query_pairs q \<rparr>)"

definition simple_platform :: "string platform" where
  "simple_platform =
     \<lparr> new_URL = simple_URL, JSON_parse = (\<lambda>s. Inr s), decodeURIComponent = (\<lambda>s. Inr s) \<rparr>"

section \<open>App router: \<open>resolveAppRoute\<close> and \<open>resolveAppDynamicRoute\<close>\<close>

text \<open>
  \<open>AppRoute\<close>. A parameter is bound to one segment or, by a catch-all, to a list of
  segments; \<open>{ ...params, [paramName]: v }\<close> is \<open>AList.update\<close>.
\<close>

datatype param_value = ParamString string | ParamList "string list"

record AppRoute =
  page :: string
  layouts :: "string list"
  params :: "(string \<times> param_value) list"
  loading :: "string option"
  error :: "string option"
  notFound :: "string option"

text \<open>\<open>s.slice(a, -b)\<close>\<close>

definition js_slice :: "nat \<Rightarrow> nat \<Rightarrow> string \<Rightarrow> string" where
  "js_slice a b s = take (length s - b - a) (drop a s)"

definition collectLayout :: "vfs \<Rightarrow> string \<Rightarrow> string list \<Rightarrow> string list" where
  "collectLayout fs dirPath layouts_in =
     (case first_some (\<lambda>ext.
             let layoutPath = dirPath @ ''/layout'' @ ext in
             if exists fs layoutPath \<and> layoutPath \<notin> set layouts_in
             then Some (layouts_in @ [layoutPath]) else None) page_extensions of
        Some collected \<Rightarrow> collected
      | None \<Rightarrow> layouts_in)"

definition findPage :: "vfs \<Rightarrow> string \<Rightarrow> string option" where
  "findPage fs dirPath = find_with_ext fs page_extensions (\<lambda>ext. dirPath @ ''/page'' @ ext)"

definition findConventionFile :: "vfs \<Rightarrow> string \<Rightarrow> string \<Rightarrow> string option" where
  "findConventionFile fs dirPath name =
     find_with_ext fs page_extensions (\<lambda>ext. dirPath @ ''/'' @ name @ ext)"

text \<open>
  \<open>current.replace(/\/[^/]+$/, '')\<close>: the last slash and what follows it are removed,
  when something follows it.
\<close>

definition parent_dir :: "string \<Rightarrow> string" where
  "parent_dir s =
     (let tail = takeWhile (\<lambda>c. c \<noteq> CHR ''/'') (rev s) in
      if tail \<noteq> [] \<and> length tail < length s
      then take (length s - length tail - 1) s
      else s)"

text \<open>The loop of \<open>findNearestConventionFile\<close>; each round shortens \<open>current\<close>.\<close>

function findNearestConventionFile :: "vfs \<Rightarrow> string \<Rightarrow> string \<Rightarrow> string \<Rightarrow> string option" where
  "findNearestConventionFile fs appDir current name =
     (if startsWith current appDir
      then (case findConventionFile fs current name of
              Some file \<Rightarrow> Some file
            | None \<Rightarrow>
               (if parent_dir current = current then None
                else findNearestConventionFile fs appDir (parent_dir current) name))
      else None)"
  by pat_completeness auto
termination
proof (relation "measure (\<lambda>(fs, appDir, current, name). length current)")
  show "wf (measure (\<lambda>(fs, appDir, current, name). length current))" by simp
next
  fix fs :: vfs and appDir current name :: string
  assume "parent_dir current \<noteq> current"
  then show "((fs, appDir, parent_dir current, name), (fs, appDir, current, name))
               \<in> measure (\<lambda>(fs, appDir, current, name). length current)"
    by (auto simp: parent_dir_def Let_def split: if_splits)
qed

definition getRouteGroups :: "vfs \<Rightarrow> string \<Rightarrow> string list" where
  "getRouteGroups fs dirPath =
     (case readdirSync fs dirPath of
        None \<Rightarrow> []
      | Some entries \<Rightarrow>
          filter (\<lambda>e. routeGroupPattern e \<and> isDirectory fs (dirPath @ ''/'' @ e)) entries)"

definition is_catch_all :: "string \<Rightarrow> bool" where
  "is_catch_all entry = (startsWith entry ''[...'' \<and> endsWith entry '']'')"

definition is_optional_catch_all :: "string \<Rightarrow> bool" where
  "is_optional_catch_all entry = (startsWith entry ''[[...'' \<and> endsWith entry '']]'')"

text \<open>The route that \<open>tryPath\<close> returns for a page file found in \<open>dir\<close>.\<close>

definition route_at ::
  "vfs \<Rightarrow> string \<Rightarrow> string \<Rightarrow> string \<Rightarrow> string list \<Rightarrow> (string \<times> param_value) list
     \<Rightarrow> AppRoute" where
  "route_at fs appDir dir pg layouts_in params_in =
     \<lparr> page = pg, layouts = layouts_in, params = params_in,
       loading = findNearestConventionFile fs appDir dir ''loading'',
       error = findNearestConventionFile fs appDir dir ''error'',
       notFound = findNearestConventionFile fs appDir dir ''not-found'' \<rparr>"

text \<open>
  The body of the loop over the entries of a directory, which \<open>tryPath\<close> has twice: for
  the entries of a route group and for the entries of the directory itself. \<open>try_rest\<close>
  and \<open>try_none\<close> are \<open>tryPath\<close> on the remaining segments and on no segments.
\<close>

definition try_dynamic_entry ::
  "vfs \<Rightarrow> string \<Rightarrow> string \<Rightarrow> string list \<Rightarrow> string list \<Rightarrow> (string \<times> param_value) list
     \<Rightarrow> (string \<Rightarrow> string list \<Rightarrow> (string \<times> param_value) list \<Rightarrow> AppRoute option)
     \<Rightarrow> (string \<Rightarrow> string list \<Rightarrow> (string \<times> param_value) list \<Rightarrow> AppRoute option)
     \<Rightarrow> string \<Rightarrow> AppRoute option" where
  "try_dynamic_entry fs base current rest layouts_in params_in try_rest try_none entry =
     (let dynamicPath = base @ ''/'' @ entry in
      if is_catch_all entry
      then (if isDirectory fs dynamicPath
            then try_none dynamicPath layouts_in
                   (AList.update (js_slice 4 1 entry) (ParamList (current # rest)) params_in)
            else None)
      else if is_optional_catch_all entry
      then (if isDirectory fs dynamicPath
            then try_none dynamicPath layouts_in
                   (AList.update (js_slice 5 2 entry) (ParamList (current # rest)) params_in)
            else None)
      else if is_dynamic_dir entry
      then (if isDirectory fs dynamicPath
            then try_rest dynamicPath layouts_in
                   (AList.update (js_slice 1 1 entry) (ParamString current) params_in)
            else None)
      else None)"

text \<open>
  The body of the loop over the route groups of a directory, for a URL with a segment left:
  the exact directory inside the group first, then the entries of the group.
\<close>

definition try_in_group ::
  "vfs \<Rightarrow> string \<Rightarrow> string \<Rightarrow> string list \<Rightarrow> string list \<Rightarrow> (string \<times> param_value) list
     \<Rightarrow> (string \<Rightarrow> string list \<Rightarrow> (string \<times> param_value) list \<Rightarrow> AppRoute option)
     \<Rightarrow> (string \<Rightarrow> string list \<Rightarrow> (string \<times> param_value) list \<Rightarrow> AppRoute option)
     \<Rightarrow> string \<Rightarrow> AppRoute option" where
  "try_in_group fs dirPath current rest layouts1 params_in try_rest try_none groupName =
     (let groupPath = dirPath @ ''/'' @ groupName;
          groupLayouts = collectLayout fs groupPath layouts1;
          groupExactPath = groupPath @ ''/'' @ current in
      case (if isDirectory fs groupExactPath
            then try_rest groupExactPath groupLayouts params_in
            else None) of
        Some result \<Rightarrow> Some result
      | None \<Rightarrow>
         (case readdirSync fs groupPath of
            None \<Rightarrow> None
          | Some groupEntries \<Rightarrow>
             first_some
               (try_dynamic_entry fs groupPath current rest groupLayouts params_in
                  try_rest try_none)
               groupEntries))"

text \<open>The body of the loop over the route groups of the terminal directory.\<close>

definition page_in_group ::
  "vfs \<Rightarrow> string \<Rightarrow> string \<Rightarrow> string list \<Rightarrow> (string \<times> param_value) list \<Rightarrow> string
     \<Rightarrow> AppRoute option" where
  "page_in_group fs appDir dirPath layouts1 params_in groupName =
     (let groupPath = dirPath @ ''/'' @ groupName;
          groupLayouts = collectLayout fs groupPath layouts1 in
      case findPage fs groupPath of
        Some pg \<Rightarrow> Some (route_at fs appDir groupPath pg groupLayouts params_in)
      | None \<Rightarrow> None)"

text \<open>\<open>tryPath\<close> of \<open>resolveAppDynamicRoute\<close>. A route object is truthy.\<close>

fun resolveAppDynamicRoute_tryPath ::
  "vfs \<Rightarrow> string \<Rightarrow> string \<Rightarrow> string list \<Rightarrow> string list \<Rightarrow> (string \<times> param_value) list
     \<Rightarrow> AppRoute option" where
  "resolveAppDynamicRoute_tryPath fs appDir dirPath [] layouts_in params_in =
     (let layouts1 = collectLayout fs dirPath layouts_in in
      case findPage fs dirPath of
        Some pg \<Rightarrow> Some (route_at fs appDir dirPath pg layouts1 params_in)
      | None \<Rightarrow>
          first_some (page_in_group fs appDir dirPath layouts1 params_in)
            (getRouteGroups fs dirPath))"
| "resolveAppDynamicRoute_tryPath fs appDir dirPath (current # rest) layouts_in params_in =
     (let layouts1 = collectLayout fs dirPath layouts_in;
          exactPath = dirPath @ ''/'' @ current in
      case (if isDirectory fs exactPath
            then resolveAppDynamicRoute_tryPath fs appDir exactPath rest layouts1 params_in
            else None) of
        Some result \<Rightarrow> Some result
      | None \<Rightarrow>
         (case first_some
                 (try_in_group fs dirPath current rest layouts1 params_in
                    (\<lambda>d l p. resolveAppDynamicRoute_tryPath fs appDir d rest l p)
                    (\<lambda>d l p. resolveAppDynamicRoute_tryPath fs appDir d [] l p))
                 (getRouteGroups fs dirPath) of
            Some result \<Rightarrow> Some result
          | None \<Rightarrow>
             (case readdirSync fs dirPath of
                None \<Rightarrow> None
              | Some entries \<Rightarrow>
                 first_some
                   (try_dynamic_entry fs dirPath current rest layouts1 params_in
                      (\<lambda>d l p. resolveAppDynamicRoute_tryPath fs appDir d rest l p)
                      (\<lambda>d l p. resolveAppDynamicRoute_tryPath fs appDir d [] l p))
                   entries)))"

declare resolveAppDynamicRoute_tryPath.simps [simp del]

definition resolveAppDynamicRoute :: "vfs \<Rightarrow> string \<Rightarrow> string list \<Rightarrow> AppRoute option" where
  "resolveAppDynamicRoute fs appDir segments =
     (let layouts0 = (case find_with_ext fs page_extensions (\<lambda>ext. appDir @ ''/layout'' @ ext) of
                        Some rootLayout \<Rightarrow> [rootLayout]
                      | None \<Rightarrow> [])
      in resolveAppDynamicRoute_tryPath fs appDir appDir segments layouts0 [])"

definition resolveAppRoute :: "vfs \<Rightarrow> string \<Rightarrow> string \<Rightarrow> AppRoute option" where
  "resolveAppRoute fs appDir pathname =
     resolveAppDynamicRoute fs appDir
       (if pathname = ''/'' then [] else path_segments pathname)"

text \<open>
  The order of a list of layouts from the root to the leaf: \<open>is_ancestor d d'\<close> says
  that directory \<open>d'\<close> is \<open>d\<close> or lies below it, and in a chain the directory of each
  layout file is an ancestor of the directories of the later ones.
\<close>

definition is_ancestor :: "string \<Rightarrow> string \<Rightarrow> bool" where
  "is_ancestor d d' = (d = d' \<or> startsWith d' (d @ ''/''))"

definition is_layout_file :: "string \<Rightarrow> bool" where
  "is_layout_file l = list_ex (\<lambda>ext. l = parent_dir l @ ''/layout'' @ ext) page_extensions"

definition root_to_leaf :: "string list \<Rightarrow> bool" where
  "root_to_leaf ls = sorted_wrt (\<lambda>a b. is_ancestor (parent_dir a) (parent_dir b)) ls"

text \<open>
  What holds of the layouts collected on the way down to directory \<open>d\<close>: no layout
  twice, root to leaf, each the layout file of a directory between the app directory
  and \<open>d\<close>.
\<close>

definition layouts_inv :: "string \<Rightarrow> string \<Rightarrow> string list \<Rightarrow> bool" where
  "layouts_inv appDir d ls =
     (distinct ls \<and> root_to_leaf ls
      \<and> (\<forall>l\<in>set ls. is_layout_file l \<and> is_ancestor appDir (parent_dir l)
                      \<and> is_ancestor (parent_dir l) d))"

text \<open>
  Names without a slash: the segments that \<open>split('/')\<close> gives are such, and so are
  the entries that \<open>readdirSync\<close> lists, which are file names.
\<close>

definition slash_free :: "string \<Rightarrow> bool" where
  "slash_free s = (CHR ''/'' \<notin> set s)"

definition vfs_names_ok :: "vfs \<Rightarrow> bool" where
  "vfs_names_ok fs =
     (\<forall>p. case readdirSync fs p of None \<Rightarrow> True | Some entries \<Rightarrow> list_all slash_free entries)"

text \<open>
  What holds of the layouts collected for directory \<open>d\<close>: each is a file that exists,
  and every directory from the app directory down to \<open>d\<close> that has a layout file has
  its first one, in the order of the extensions, in the list. On the way into \<open>d\<close>,
  before \<open>collectLayout\<close> has looked at \<open>d\<close> itself, that holds of the directories
  above \<open>d\<close>.
\<close>

definition layouts_cover :: "vfs \<Rightarrow> string \<Rightarrow> string \<Rightarrow> string list \<Rightarrow> bool" where
  "layouts_cover fs appDir d ls =
     ((\<forall>l\<in>set ls. exists fs l)
      \<and> (\<forall>d' l. is_ancestor appDir d' \<and> is_ancestor d' d
                  \<and> find_with_ext fs page_extensions (\<lambda>ext. d' @ ''/layout'' @ ext) = Some l
                  \<longrightarrow> l \<in> set ls))"

definition layouts_cover_above :: "vfs \<Rightarrow> string \<Rightarrow> string \<Rightarrow> string list \<Rightarrow> bool" where
  "layouts_cover_above fs appDir d ls =
     ((\<forall>l\<in>set ls. exists fs l)
      \<and> (\<forall>d' l. is_ancestor appDir d' \<and> is_ancestor d' d \<and> d' \<noteq> d
                  \<and> find_with_ext fs page_extensions (\<lambda>ext. d' @ ''/layout'' @ ext) = Some l
                  \<longrightarrow> l \<in> set ls))"



text \<open>A route three levels deep with a layout at the root and at each level.\<close>

definition fs_nested_layouts :: vfs where
  "fs_nested_layouts =
     \<lparr> exists = (\<lambda>p. p \<in> set [''/app'', ''/app/layout.tsx'', ''/app/page.tsx'',
                              ''/app/dashboard'', ''/app/dashboard/layout.tsx'',
                              ''/app/dashboard/settings'', ''/app/dashboard/settings/layout.tsx'',
                              ''/app/dashboard/settings/page.tsx'']),
       isDirectory = (\<lambda>p. p \<in> set [''/app'', ''/app/dashboard'', ''/app/dashboard/settings'']),
       readdirSync = (\<lambda>p. if p = ''/app'' then Some [''dashboard'', ''layout.tsx'', ''page.tsx'']
                          else if p = ''/app/dashboard'' then Some [''layout.tsx'', ''settings'']
                          else if p = ''/app/dashboard/settings''
                               then Some [''layout.tsx'', ''page.tsx'']
                          else None) \<rparr>"

text \<open>A project with a root page and no root layout; \<open>about\<close> has a layout of its own.\<close>

definition fs_no_root_layout :: vfs where
  "fs_no_root_layout =
     \<lparr> exists = (\<lambda>p. p \<in> set [''/app'', ''/app/page.tsx'', ''/app/about'',
                              ''/app/about/layout.tsx'', ''/app/about/page.tsx'']),
       isDirectory = (\<lambda>p. p \<in> set [''/app'', ''/app/about'']),
       readdirSync = (\<lambda>p. if p = ''/app'' then Some [''about'', ''page.tsx'']
                          else if p = ''/app/about'' then Some [''layout.tsx'', ''page.tsx'']
                          else None) \<rparr>"




section \<open>Properties of the Pages router\<close>

lemma first_some_SomeD:
  "first_some f xs = Some y \<Longrightarrow> \<exists>x\<in>set xs. f x = Some y"
  by (induction xs) (auto split: option.splits)

lemma first_some_None_iff:
  "first_some f xs = None \<longleftrightarrow> (\<forall>x\<in>set xs. f x = None)"
  by (induction xs) (auto split: option.splits)

lemma first_some_hit:
  "x \<in> set xs \<Longrightarrow> f x = Some y \<Longrightarrow> \<exists>z. first_some f xs = Some z"
  by (cases "first_some f xs") (auto simp: first_some_None_iff)

lemma startsWith_append [simp]: "startsWith (p @ s) p"
  by (simp add: startsWith_def)

lemma startsWith_append2: "startsWith s (p @ q) \<Longrightarrow> startsWith s p"
  unfolding startsWith_def
  by (metis append_eq_conv_conj append_take_drop_id append.assoc)

lemma find_with_ext_SomeD:
  "find_with_ext fs exts f = Some y \<Longrightarrow> \<exists>ext\<in>set exts. y = f ext \<and> exists fs y"
  unfolding find_with_ext_def
  by (drule first_some_SomeD) (auto split: if_splits)

lemma literal_file_check:
  "first_some (\<lambda>ext. if rest = [] \<and> exists fs ((d @ ''/'' @ c) @ ext)
                        then Some ((d @ ''/'' @ c) @ ext) else None) exts
   = (if rest = [] then find_with_ext fs exts (\<lambda>ext. d @ ''/'' @ c @ ext) else None)"
  by (induction exts) (auto simp: find_with_ext_def)

lemma tryPath_Cons_cases:
  assumes "resolveDynamicRoute_tryPath fs d (c # rest) = Some g"
  obtains (litfile) "rest = []"
      "find_with_ext fs page_extensions (\<lambda>ext. d @ ''/'' @ c @ ext) = Some g"
  | (literal) "isDirectory fs (d @ ''/'' @ c)"
      "resolveDynamicRoute_tryPath fs (d @ ''/'' @ c) rest = Some g"
  | (dynfile) entries e ext where "readdirSync fs d = Some entries" "e \<in> set entries"
      "ext \<in> set page_extensions" "is_dynamic_file e ext" "rest = []" "g = d @ ''/'' @ e"
  | (dyndir) entries e where "readdirSync fs d = Some entries" "e \<in> set entries"
      "is_dynamic_dir e" "isDirectory fs (d @ ''/'' @ e)"
      "resolveDynamicRoute_tryPath fs (d @ ''/'' @ e) rest = Some g"
  | (catchall) entries e ext where "readdirSync fs d = Some entries" "e \<in> set entries"
      "ext \<in> set page_extensions" "is_catch_all_file e ext" "g = d @ ''/'' @ e"
  using assms
  apply (simp only: resolveDynamicRoute_tryPath.simps(2) Let_def literal_file_check)
  apply (auto dest!: first_some_SomeD split: option.splits if_splits)
  done

lemma tryPath_under_dir:
  "resolveDynamicRoute_tryPath fs d segs = Some g \<Longrightarrow> startsWith g (d @ ''/'')"
proof (induction segs arbitrary: d g)
  case Nil
  then show ?case
    by (auto dest!: find_with_ext_SomeD simp: startsWith_def)
next
  case (Cons c rest)
  from Cons.prems show ?case
  proof (cases rule: tryPath_Cons_cases)
    case litfile
    then show ?thesis by (auto dest!: find_with_ext_SomeD simp: startsWith_def)
  next
    case literal
    from Cons.IH[OF literal(2)] show ?thesis
      using startsWith_append2[of g "d @ ''/''" "c @ ''/''"] by simp
  next
    case (dynfile entries e ext)
    then show ?thesis by (simp add: startsWith_def)
  next
    case (dyndir entries e)
    from Cons.IH[OF dyndir(5)] show ?thesis
      using startsWith_append2[of g "d @ ''/''" "e @ ''/''"] by simp
  next
    case (catchall entries e ext)
    then show ?thesis by (simp add: startsWith_def)
  qed
qed


lemma is_dynamic_dir_bracket: "is_dynamic_dir e \<Longrightarrow> startsWith e ''[''"
  by (simp add: is_dynamic_dir_def)

lemma is_catch_all_file_bracket: "is_catch_all_file e ext \<Longrightarrow> startsWith e ''[''"
  using startsWith_append2[of e "''[''" "''...''"] by (simp add: is_catch_all_file_def)

lemma endsWith_last:
  "endsWith e ext \<Longrightarrow> ext \<noteq> [] \<Longrightarrow> last e = last ext"
  unfolding endsWith_def
  by (metis append_take_drop_id last_appendR)

lemma is_dynamic_file_bracket:
  assumes "is_dynamic_file e ext" and "ext \<in> set page_extensions"
  shows "startsWith e ''[''"
proof (cases e)
  case Nil
  with assms show ?thesis by (simp add: is_dynamic_file_def dynamicFilePattern_def)
next
  case (Cons c cs)
  from assms(2) have ne: "ext \<noteq> []" and lst: "last ext \<noteq> CHR '']''"
    by (auto simp: page_extensions_def)
  from assms(1) have ends: "endsWith e ext"
    and pat: "dynamicFilePattern (replace_first_empty e ext)"
    by (simp_all add: is_dynamic_file_def)
  show ?thesis
  proof (cases "startsWith e ext")
    case True
    with Cons have r: "replace_first_empty e ext = drop (length ext) e" by simp
    from pat r have dne: "drop (length ext) e \<noteq> []" and "last (drop (length ext) e) = CHR '']''"
      by (auto simp: dynamicFilePattern_def split: list.splits if_splits)
    moreover from dne have "last (drop (length ext) e) = last e"
      by simp
    ultimately show ?thesis using endsWith_last[OF ends ne] lst by simp
  next
    case False
    with Cons have "replace_first_empty e ext = c # replace_first_empty cs ext" by simp
    with pat have "c = CHR ''[''" by (simp add: dynamicFilePattern_def)
    with Cons show ?thesis by (simp add: startsWith_def)
  qed
qed


lemma tryPath_literal_first:
  assumes "isDirectory fs (d @ ''/'' @ c)"
    and "resolveDynamicRoute_tryPath fs (d @ ''/'' @ c) rest = Some f"
  shows "resolveDynamicRoute_tryPath fs d (c # rest) =
           (if rest = [] \<and> find_with_ext fs page_extensions (\<lambda>ext. d @ ''/'' @ c @ ext) \<noteq> None
            then find_with_ext fs page_extensions (\<lambda>ext. d @ ''/'' @ c @ ext)
            else Some f)"
proof -
  define lf where "lf = find_with_ext fs page_extensions (\<lambda>ext. d @ ''/'' @ c @ ext)"
  have "resolveDynamicRoute_tryPath fs d (c # rest) =
      (case (if rest = [] then lf else None) of
        Some file \<Rightarrow> Some file | None \<Rightarrow> Some f)"
    using assms unfolding lf_def
    by (simp only: resolveDynamicRoute_tryPath.simps Let_def literal_file_check if_True option.case)
  then show ?thesis unfolding lf_def[symmetric] by (auto split: option.splits)
qed

lemma tryPath_dynamic_hit:
  assumes rd: "readdirSync fs d = Some entries"
    and mem: "e \<in> set entries"
    and dyn: "is_dynamic_dir e" "isDirectory fs (d @ ''/'' @ e)"
    and res: "resolveDynamicRoute_tryPath fs (d @ ''/'' @ e) rest = Some g"
  shows "\<exists>g'. resolveDynamicRoute_tryPath fs d (c # rest) = Some g'"
proof (cases "resolveDynamicRoute_tryPath fs d (c # rest)")
  case None
  then have "\<forall>x\<in>set entries. (if is_dynamic_dir x \<and> isDirectory fs (d @ ''/'' @ x)
      then resolveDynamicRoute_tryPath fs (d @ ''/'' @ x) rest else None) = None"
    using rd
    by (simp only: resolveDynamicRoute_tryPath.simps Let_def split: option.splits)
       (auto simp: first_some_None_iff split: option.splits if_splits)
  with mem dyn res show ?thesis by auto
next
  case (Some a)
  then show ?thesis by blast
qed


text \<open>
  Claim C1. In \<open>resolveDynamicRoute\<close>, let a directory hold the literal directory
  \<open>current\<close> and a dynamic directory \<open>entry\<close> (such as \<open>[slug]\<close>) whose subtree
  resolves the remaining segments. If the literal subtree resolves them too, the result
  is the literal one (the literal file \<open>current.ext\<close> when it exists and no segment
  remains, else the literal subtree's file). If the literal subtree yields nothing, the
  resolution goes on and still succeeds: with the literal file, or with a file below a
  sibling entry that starts with a bracket.
\<close>

theorem pages_literal_first_then_backtrack:
  assumes lit: "isDirectory fs (dirPath @ ''/'' @ current)"
    and rd: "readdirSync fs dirPath = Some entries"
    and mem: "entry \<in> set entries"
    and dyn: "is_dynamic_dir entry" "isDirectory fs (dirPath @ ''/'' @ entry)"
    and dynres: "resolveDynamicRoute_tryPath fs (dirPath @ ''/'' @ entry) rest = Some g"
  shows "(\<forall>f. resolveDynamicRoute_tryPath fs (dirPath @ ''/'' @ current) rest = Some f \<longrightarrow>
           resolveDynamicRoute_tryPath fs dirPath (current # rest) =
             (if rest = [] \<and> find_with_ext fs page_extensions (\<lambda>ext. dirPath @ ''/'' @ current @ ext) \<noteq> None
              then find_with_ext fs page_extensions (\<lambda>ext. dirPath @ ''/'' @ current @ ext)
              else Some f))
       \<and> (resolveDynamicRoute_tryPath fs (dirPath @ ''/'' @ current) rest = None \<longrightarrow>
           (\<exists>g'. resolveDynamicRoute_tryPath fs dirPath (current # rest) = Some g' \<and>
             ((rest = [] \<and> find_with_ext fs page_extensions (\<lambda>ext. dirPath @ ''/'' @ current @ ext) = Some g')
              \<or> (\<exists>e\<in>set entries. startsWith e ''['' \<and> startsWith g' (dirPath @ ''/'' @ e)))))"
proof (intro conjI allI impI)
  fix f
  assume "resolveDynamicRoute_tryPath fs (dirPath @ ''/'' @ current) rest = Some f"
  from tryPath_literal_first[OF lit this]
  show "resolveDynamicRoute_tryPath fs dirPath (current # rest) =
             (if rest = [] \<and> find_with_ext fs page_extensions (\<lambda>ext. dirPath @ ''/'' @ current @ ext) \<noteq> None
              then find_with_ext fs page_extensions (\<lambda>ext. dirPath @ ''/'' @ current @ ext)
              else Some f)" .
next
  assume none: "resolveDynamicRoute_tryPath fs (dirPath @ ''/'' @ current) rest = None"
  obtain g' where g': "resolveDynamicRoute_tryPath fs dirPath (current # rest) = Some g'"
    using tryPath_dynamic_hit[OF rd mem dyn dynres] by blast
  from g' have "(rest = [] \<and> find_with_ext fs page_extensions (\<lambda>ext. dirPath @ ''/'' @ current @ ext) = Some g')
              \<or> (\<exists>e\<in>set entries. startsWith e ''['' \<and> startsWith g' (dirPath @ ''/'' @ e))"
  proof (cases rule: tryPath_Cons_cases)
    case litfile
    then show ?thesis by simp
  next
    case literal
    with none show ?thesis by simp
  next
    case (dynfile es e ext)
    with rd have "e \<in> set entries" by simp
    moreover have "startsWith e ''[''" using dynfile is_dynamic_file_bracket by blast
    moreover have "startsWith g' (dirPath @ ''/'' @ e)" using dynfile by (simp add: startsWith_def)
    ultimately show ?thesis by blast
  next
    case (dyndir es e)
    with rd have "e \<in> set entries" by simp
    moreover have "startsWith e ''[''" using dyndir is_dynamic_dir_bracket by blast
    moreover have "startsWith g' (dirPath @ ''/'' @ e)"
      using tryPath_under_dir[OF dyndir(5)] startsWith_append2[of g' "dirPath @ ''/'' @ e" "''/''"]
      by simp
    ultimately show ?thesis by blast
  next
    case (catchall es e ext)
    with rd have "e \<in> set entries" by simp
    moreover have "startsWith e ''[''" using catchall is_catch_all_file_bracket by blast
    moreover have "startsWith g' (dirPath @ ''/'' @ e)" using catchall by (simp add: startsWith_def)
    ultimately show ?thesis by blast
  qed
  with g' show "\<exists>g'. resolveDynamicRoute_tryPath fs dirPath (current # rest) = Some g' \<and>
             ((rest = [] \<and> find_with_ext fs page_extensions (\<lambda>ext. dirPath @ ''/'' @ current @ ext) = Some g')
              \<or> (\<exists>e\<in>set entries. startsWith e ''['' \<and> startsWith g' (dirPath @ ''/'' @ e)))"
    by blast
qed


theorem pages_literal_first_then_backtrack_witness:
  "isDirectory fs_pages_demo ''/pages/about''
   \<and> readdirSync fs_pages_demo ''/pages'' = Some [''[slug]'', ''about'']
   \<and> is_dynamic_dir ''[slug]''
   \<and> isDirectory fs_pages_demo ''/pages/[slug]''
   \<and> resolveDynamicRoute_tryPath fs_pages_demo ''/pages/[slug]'' [''team''] = Some ''/pages/[slug]/team.jsx''
   \<and> resolveDynamicRoute_tryPath fs_pages_demo ''/pages/about'' [''team''] = Some ''/pages/about/team.jsx''
   \<and> resolveDynamicRoute_tryPath fs_pages_demo ''/pages'' [''about'', ''team''] = Some ''/pages/about/team.jsx''
   \<and> resolveDynamicRoute_tryPath fs_pages_demo ''/pages/[slug]'' [''jobs''] = Some ''/pages/[slug]/jobs.jsx''
   \<and> resolveDynamicRoute_tryPath fs_pages_demo ''/pages/about'' [''jobs''] = None
   \<and> (\<exists>g'. resolveDynamicRoute_tryPath fs_pages_demo ''/pages'' [''about'', ''jobs''] = Some g')
   \<and> resolvePageFile fs_pages_demo ''/pages'' ''/about/jobs'' = Some ''/pages/[slug]/jobs.jsx''
   \<and> resolvePageFile fs_pages_demo ''/pages'' ''/about'' = Some ''/pages/about/index.jsx''"
proof -
  have lit: "isDirectory fs_pages_demo ''/pages/about''" by code_simp
  have rd: "readdirSync fs_pages_demo ''/pages'' = Some [''[slug]'', ''about'']" by code_simp
  have dyn: "is_dynamic_dir ''[slug]''" by code_simp
  have dyndir: "isDirectory fs_pages_demo ''/pages/[slug]''" by code_simp
  have d_team: "resolveDynamicRoute_tryPath fs_pages_demo ''/pages/[slug]'' [''team'']
      = Some ''/pages/[slug]/team.jsx''" by code_simp
  have l_team: "resolveDynamicRoute_tryPath fs_pages_demo ''/pages/about'' [''team'']
      = Some ''/pages/about/team.jsx''" by code_simp
  have d_jobs: "resolveDynamicRoute_tryPath fs_pages_demo ''/pages/[slug]'' [''jobs'']
      = Some ''/pages/[slug]/jobs.jsx''" by code_simp
  have l_jobs: "resolveDynamicRoute_tryPath fs_pages_demo ''/pages/about'' [''jobs''] = None"
    by code_simp
  have url1: "resolvePageFile fs_pages_demo ''/pages'' ''/about/jobs'' = Some ''/pages/[slug]/jobs.jsx''"
    by code_simp
  have url2: "resolvePageFile fs_pages_demo ''/pages'' ''/about'' = Some ''/pages/about/index.jsx''"
    by code_simp
  have team: "resolveDynamicRoute_tryPath fs_pages_demo ''/pages'' [''about'', ''team'']
      = Some ''/pages/about/team.jsx''"
    using pages_literal_first_then_backtrack[of fs_pages_demo "''/pages''" "''about''"
        "[''[slug]'', ''about'']" "''[slug]''" "[''team'']" "''/pages/[slug]/team.jsx''"]
      lit rd dyn dyndir d_team l_team by simp
  have jobs: "\<exists>g'. resolveDynamicRoute_tryPath fs_pages_demo ''/pages'' [''about'', ''jobs''] = Some g'"
    using pages_literal_first_then_backtrack[of fs_pages_demo "''/pages''" "''about''"
        "[''[slug]'', ''about'']" "''[slug]''" "[''jobs'']" "''/pages/[slug]/jobs.jsx''"]
      lit rd dyn dyndir d_jobs l_jobs by auto
  show ?thesis
    using lit rd dyn dyndir d_team l_team team d_jobs l_jobs jobs url1 url2 by blast
qed

section \<open>Properties of the transform cache\<close>

lemma delete_head_distinct:
  "distinct (map fst ((k, v) # xs)) \<Longrightarrow> AList.delete k ((k, v) # xs) = xs"
  by simp

lemma update_fresh_append:
  "k \<notin> fst ` set xs \<Longrightarrow> AList.update k v xs = xs @ [(k, v)]"
  by (induction xs) auto

lemma length_update:
  "length (AList.update k v xs) = (if k \<in> fst ` set xs then length xs else Suc (length xs))"
  by (induction xs) auto

lemma evict_oldest_small: "length c \<le> 500 \<Longrightarrow> evict_oldest c = c"
  by (simp add: evict_oldest_def)

lemma evict_oldest_big:
  assumes "distinct (map fst c)" "[] \<notin> set (map fst c)" "length c > 500"
  shows "evict_oldest c = tl c"
proof (cases c)
  case Nil
  with assms show ?thesis by simp
next
  case (Cons p ps)
  obtain k v where p: "p = (k, v)" by (cases p)
  with assms Cons have "k \<noteq> []" by auto
  with assms Cons p show ?thesis
    using delete_head_distinct[of k v ps] by (simp add: evict_oldest_def)
qed

lemma evict_oldest_keeps:
  assumes "length c \<le> 500"
  shows "map_of (evict_oldest (AList.update k v c)) k = Some v"
proof (cases "length (AList.update k v c) \<le> 500")
  case True
  then show ?thesis by (simp add: evict_oldest_small AList.update_conv')
next
  case False
  with assms have fresh: "k \<notin> fst ` set c" by (auto simp: length_update split: if_splits)
  show ?thesis
  proof (cases c)
    case Nil
    then show ?thesis by (simp add: evict_oldest_def)
  next
    case (Cons p ps)
    obtain k' v' where p: "p = (k', v')" by (cases p)
    from fresh Cons p have ne: "k \<noteq> k'" by auto
    have m: "map_of (AList.update k v c) k = Some v" by (simp add: AList.update_conv')
    have c1: "AList.update k v c = (k', v') # AList.update k v ps" using Cons p ne by simp
    have "evict_oldest (AList.update k v c) = AList.update k v c
          \<or> evict_oldest (AList.update k v c) = AList.delete k' (AList.update k v c)"
      unfolding c1 by (simp add: evict_oldest_def)
    then show ?thesis using m ne by auto
  qed
qed

lemma cache_inv_update_evict:
  assumes "cache_inv c" and "k \<noteq> []"
  shows "cache_inv (evict_oldest (AList.update k v c))"
    and "evict_oldest (AList.update k v c) =
           (if length (AList.update k v c) > 500 then tl (AList.update k v c)
            else AList.update k v c)"
proof -
  let ?c1 = "AList.update k v c"
  have d: "distinct (map fst ?c1)" using assms by (simp add: cache_inv_def AList.distinct_update)
  have n: "[] \<notin> set (map fst ?c1)" using assms by (auto simp: cache_inv_def AList.dom_update)
  have l: "length ?c1 \<le> 501" using assms by (simp add: cache_inv_def length_update)
  show eq: "evict_oldest ?c1 = (if length ?c1 > 500 then tl ?c1 else ?c1)"
    using d n by (simp add: evict_oldest_big evict_oldest_small)
  show "cache_inv (evict_oldest ?c1)"
    unfolding eq cache_inv_def using d n l
    by (cases "AList.update k v c") (auto simp: distinct_tl)
qed


lemma transformAndServe_hit:
  assumes "readFileSync filePath = Inr content"
    and "map_of (transformCache st) filePath = Some cached"
    and "hash cached = simpleHash env content"
  shows "transformAndServe env readFileSync st filePath urlPath
           = (cache_hit_response (code cached), st)"
  using assms by (simp add: transformAndServe_def)

lemma transformAndServe_miss:
  assumes "readFileSync filePath = Inr content"
    and "\<not> cache_valid env (transformCache st) filePath content"
  shows "transformAndServe env readFileSync st filePath urlPath
           = compile_and_cache env st filePath content"
  using assms by (auto simp: transformAndServe_def cache_valid_def split: option.splits)

lemma compile_and_cache_ok:
  assumes "transformCode env content filePath = Inr compiled"
  shows "compile_and_cache env st filePath content =
           (transformed_response compiled,
            \<lparr>transformCache = evict_oldest (AList.update filePath
                 \<lparr>code = compiled, hash = simpleHash env content\<rparr> (transformCache st)),
             transformCalls = transformCalls st @ [(content, filePath)]\<rparr>)"
  using assms by (simp add: compile_and_cache_def Let_def)

lemma compile_and_cache_calls:
  "transformCalls (snd (compile_and_cache env st filePath content))
     = transformCalls st @ [(content, filePath)]"
  by (simp add: compile_and_cache_def Let_def split: sum.splits)

lemma digit_chars:
  "char_of (48::nat) = CHR ''0''" "char_of (49::nat) = CHR ''1''" "char_of (50::nat) = CHR ''2''"
  "char_of (51::nat) = CHR ''3''" "char_of (52::nat) = CHR ''4''" "char_of (53::nat) = CHR ''5''"
  "char_of (54::nat) = CHR ''6''" "char_of (55::nat) = CHR ''7''" "char_of (56::nat) = CHR ''8''"
  "char_of (57::nat) = CHR ''9''"
  by (simp_all add: char_of_def bit_Suc_0_iff)

lemma rolling_hash_values:
  "rolling_hash ''Aa'' = ''2112''" "rolling_hash ''BB'' = ''2112''" "rolling_hash ''B'' = ''66''"
  by (simp_all add: rolling_hash_def digit_chars)

lemma compile_and_cache_failed_state:
  assumes "transformCode env content filePath = Inl err"
  shows "compile_and_cache env st filePath content
           = (transform_error_response env err,
              st\<lparr>transformCalls := transformCalls st @ [(content, filePath)]\<rparr>)"
  using assms by (simp add: compile_and_cache_def Let_def)

lemma cache_hit_response_fields:
  "cache_hit_response c =
     \<lparr> statusCode = 200, statusMessage = ''OK'',
       headers = [(''Content-Type'', ''application/javascript; charset=utf-8''),
                  (''Content-Length'', String_of_nat (length c)),
                  (''Cache-Control'', ''no-cache''),
                  (''X-Transformed'', ''true''),
                  (''X-Cache'', ''hit'')],
       body = c \<rparr>"
  by (simp only: cache_hit_response_def)

lemma serve_with_entry:
  assumes rd: "readFileSync filePath = Inr content"
    and e: "map_of (transformCache st) filePath = Some cached"
  shows "hash cached = simpleHash env content \<Longrightarrow>
           transformAndServe env readFileSync st filePath urlPath
             = (cache_hit_response (code cached), st)"
    and "hash cached \<noteq> simpleHash env content \<Longrightarrow>
           transformCalls (snd (transformAndServe env readFileSync st filePath urlPath))
             = transformCalls st @ [(content, filePath)]"
proof -
  show "transformAndServe env readFileSync st filePath urlPath
             = (cache_hit_response (code cached), st)"
    if "hash cached = simpleHash env content"
    using transformAndServe_hit[where readFileSync=readFileSync and filePath=filePath
        and content=content and env=env and st=st and urlPath=urlPath and cached=cached]
      rd e that by simp
  show "transformCalls (snd (transformAndServe env readFileSync st filePath urlPath))
             = transformCalls st @ [(content, filePath)]"
    if "hash cached \<noteq> simpleHash env content"
  proof -
    from that e have "\<not> cache_valid env (transformCache st) filePath content"
      by (simp add: cache_valid_def)
    with transformAndServe_miss[where readFileSync=readFileSync and filePath=filePath
        and content=content and env=env and st=st and urlPath=urlPath] rd
    show ?thesis by (simp add: compile_and_cache_calls)
  qed
qed

text \<open>
  Claim C2, as amended. Take a path whose file reads as \<open>content\<close>. When the cache has
  no entry with the hash of \<open>content\<close> for the path and \<open>transformCode\<close> succeeds, two
  calls of \<open>transformAndServe\<close> with the file unchanged call \<open>transformCode\<close> exactly
  once: the second call leaves the state as it is and answers 200 with the stored code as
  body and \<open>X-Cache: hit\<close>. When the file's content has changed before the second call,
  that call invokes \<open>transformCode\<close> again exactly when the hash of the new content
  differs; new content with the same hash is answered from the cache, with the code
  compiled from the old content. When \<open>transformCode\<close> throws, nothing is stored and the
  second call invokes it again. When the cache has an entry with the hash of
  \<open>content\<close> before the first call, that call is a hit already. In every case the
  second call invokes \<open>transformCode\<close> exactly when the entry of the path does not have
  the hash of the content that the call reads.
\<close>

theorem transform_cache_round_trip:
  assumes len: "length (transformCache st) \<le> 500"
    and rd: "readFileSync filePath = Inr content"
  shows "(\<forall>compiled.
            \<not> cache_valid env (transformCache st) filePath content
            \<and> transformCode env content filePath = Inr compiled \<longrightarrow>
            transformCalls (snd (transformAndServe env readFileSync st filePath urlPath))
              = transformCalls st @ [(content, filePath)]
            \<and> body (fst (transformAndServe env readFileSync st filePath urlPath)) = compiled
            \<and> transformAndServe env readFileSync
                 (snd (transformAndServe env readFileSync st filePath urlPath)) filePath urlPath'
               = (\<lparr> statusCode = 200, statusMessage = ''OK'',
                     headers = [(''Content-Type'', ''application/javascript; charset=utf-8''),
                                (''Content-Length'', String_of_nat (length compiled)),
                                (''Cache-Control'', ''no-cache''),
                                (''X-Transformed'', ''true''),
                                (''X-Cache'', ''hit'')],
                     body = compiled \<rparr>,
                  snd (transformAndServe env readFileSync st filePath urlPath))
            \<and> (\<forall>readFileSync' content'. readFileSync' filePath = Inr content' \<longrightarrow>
                  (if simpleHash env content' = simpleHash env content
                   then transformCalls (snd (transformAndServe env readFileSync'
                            (snd (transformAndServe env readFileSync st filePath urlPath))
                            filePath urlPath'))
                          = transformCalls st @ [(content, filePath)]
                        \<and> body (fst (transformAndServe env readFileSync'
                            (snd (transformAndServe env readFileSync st filePath urlPath))
                            filePath urlPath')) = compiled
                   else transformCalls (snd (transformAndServe env readFileSync'
                            (snd (transformAndServe env readFileSync st filePath urlPath))
                            filePath urlPath'))
                          = transformCalls st @ [(content, filePath), (content', filePath)])))
       \<and> (\<forall>err.
            \<not> cache_valid env (transformCache st) filePath content
            \<and> transformCode env content filePath = Inl err \<longrightarrow>
            transformCalls (snd (transformAndServe env readFileSync
                 (snd (transformAndServe env readFileSync st filePath urlPath)) filePath urlPath'))
              = transformCalls st @ [(content, filePath), (content, filePath)]
            \<and> transformCache (snd (transformAndServe env readFileSync
                 (snd (transformAndServe env readFileSync st filePath urlPath)) filePath urlPath'))
              = transformCache st)
       \<and> (cache_valid env (transformCache st) filePath content \<longrightarrow>
            snd (transformAndServe env readFileSync st filePath urlPath) = st
            \<and> (\<exists>cached. map_of (transformCache st) filePath = Some cached
                  \<and> body (fst (transformAndServe env readFileSync st filePath urlPath))
                      = code cached))
       \<and> (\<forall>readFileSync' content'. readFileSync' filePath = Inr content' \<longrightarrow>
            transformCalls (snd (transformAndServe env readFileSync'
                 (snd (transformAndServe env readFileSync st filePath urlPath)) filePath urlPath'))
              = transformCalls (snd (transformAndServe env readFileSync st filePath urlPath))
                @ (if cache_valid env
                        (transformCache (snd (transformAndServe env readFileSync st filePath urlPath)))
                        filePath content'
                   then [] else [(content', filePath)]))"
proof -
  let ?st1 = "snd (transformAndServe env readFileSync st filePath urlPath)"
  have any_case: "transformCalls (snd (transformAndServe env readFileSync' ?st1 filePath urlPath'))
              = transformCalls ?st1
                @ (if cache_valid env (transformCache ?st1) filePath content'
                   then [] else [(content', filePath)])"
    if rd': "readFileSync' filePath = Inr content'" for readFileSync' content'
  proof (cases "cache_valid env (transformCache ?st1) filePath content'")
    case True
    then obtain cached where e: "map_of (transformCache ?st1) filePath = Some cached"
      and h: "hash cached = simpleHash env content'"
      by (auto simp: cache_valid_def split: option.splits)
    from serve_with_entry(1)[where readFileSync=readFileSync' and filePath=filePath
        and content=content' and env=env and st="?st1" and urlPath=urlPath' and cached=cached]
      rd' e h True show ?thesis by simp
  next
    case False
    with transformAndServe_miss[where readFileSync=readFileSync' and filePath=filePath
        and content=content' and env=env and st="?st1" and urlPath=urlPath'] rd'
    show ?thesis by (simp add: compile_and_cache_calls)
  qed
  have ok_case: "transformCalls ?st1 = transformCalls st @ [(content, filePath)]
            \<and> body (fst (transformAndServe env readFileSync st filePath urlPath)) = compiled
            \<and> transformAndServe env readFileSync ?st1 filePath urlPath'
               = (\<lparr> statusCode = 200, statusMessage = ''OK'',
                     headers = [(''Content-Type'', ''application/javascript; charset=utf-8''),
                                (''Content-Length'', String_of_nat (length compiled)),
                                (''Cache-Control'', ''no-cache''),
                                (''X-Transformed'', ''true''),
                                (''X-Cache'', ''hit'')],
                     body = compiled \<rparr>, ?st1)
            \<and> (\<forall>readFileSync' content'. readFileSync' filePath = Inr content' \<longrightarrow>
                  (if simpleHash env content' = simpleHash env content
                   then transformCalls (snd (transformAndServe env readFileSync' ?st1
                            filePath urlPath'))
                          = transformCalls st @ [(content, filePath)]
                        \<and> body (fst (transformAndServe env readFileSync' ?st1
                            filePath urlPath')) = compiled
                   else transformCalls (snd (transformAndServe env readFileSync' ?st1
                            filePath urlPath'))
                          = transformCalls st @ [(content, filePath), (content', filePath)]))"
    if miss: "\<not> cache_valid env (transformCache st) filePath content"
      and ok: "transformCode env content filePath = Inr compiled" for compiled
  proof -
    let ?e = "\<lparr>code = compiled, hash = simpleHash env content\<rparr>"
    have first: "transformAndServe env readFileSync st filePath urlPath
        = (transformed_response compiled,
           \<lparr>transformCache = evict_oldest (AList.update filePath ?e (transformCache st)),
            transformCalls = transformCalls st @ [(content, filePath)]\<rparr>)"
      using transformAndServe_miss[where readFileSync=readFileSync and filePath=filePath
        and content=content and env=env and st=st and urlPath=urlPath] rd miss
      by (simp add: compile_and_cache_ok[OF ok])
    have calls1: "transformCalls ?st1 = transformCalls st @ [(content, filePath)]"
      by (simp add: first)
    have body1: "body (fst (transformAndServe env readFileSync st filePath urlPath)) = compiled"
      by (simp add: first transformed_response_def)
    have look: "map_of (transformCache ?st1) filePath = Some ?e"
      by (simp add: first evict_oldest_keeps[OF len])
    have second: "transformAndServe env readFileSync ?st1 filePath urlPath'
                  = (cache_hit_response compiled, ?st1)"
      using serve_with_entry(1)[where readFileSync=readFileSync and filePath=filePath
        and content=content and env=env and st="?st1" and urlPath=urlPath' and cached="?e"]
        rd look by simp
    have changed: "(if simpleHash env content' = simpleHash env content
                   then transformCalls (snd (transformAndServe env readFileSync' ?st1
                            filePath urlPath'))
                          = transformCalls st @ [(content, filePath)]
                        \<and> body (fst (transformAndServe env readFileSync' ?st1
                            filePath urlPath')) = compiled
                   else transformCalls (snd (transformAndServe env readFileSync' ?st1
                            filePath urlPath'))
                          = transformCalls st @ [(content, filePath), (content', filePath)])"
      if rd': "readFileSync' filePath = Inr content'" for readFileSync' content'
    proof (cases "simpleHash env content' = simpleHash env content")
      case True
      then have "transformAndServe env readFileSync' ?st1 filePath urlPath'
                   = (cache_hit_response compiled, ?st1)"
        using serve_with_entry(1)[where readFileSync=readFileSync' and filePath=filePath
          and content=content' and env=env and st="?st1" and urlPath=urlPath' and cached="?e"]
          rd' look by simp
      with True calls1 show ?thesis by (simp add: cache_hit_response_fields)
    next
      case False
      then have "transformCalls (snd (transformAndServe env readFileSync' ?st1 filePath urlPath'))
                   = transformCalls ?st1 @ [(content', filePath)]"
        using serve_with_entry(2)[where readFileSync=readFileSync' and filePath=filePath
          and content=content' and env=env and st="?st1" and urlPath=urlPath' and cached="?e"]
          rd' look by simp
      with False calls1 show ?thesis by simp
    qed
    from calls1 body1 second changed show ?thesis
      by (simp only: cache_hit_response_fields) blast
  qed
  have fail_case: "transformCalls (snd (transformAndServe env readFileSync ?st1 filePath urlPath'))
              = transformCalls st @ [(content, filePath), (content, filePath)]
            \<and> transformCache (snd (transformAndServe env readFileSync ?st1 filePath urlPath'))
              = transformCache st"
    if miss: "\<not> cache_valid env (transformCache st) filePath content"
      and bad: "transformCode env content filePath = Inl err" for err
  proof -
    have first: "?st1 = st\<lparr>transformCalls := transformCalls st @ [(content, filePath)]\<rparr>"
      using transformAndServe_miss[where readFileSync=readFileSync and filePath=filePath
        and content=content and env=env and st=st and urlPath=urlPath] rd miss
      by (simp add: compile_and_cache_failed_state[OF bad])
    have miss1: "\<not> cache_valid env (transformCache ?st1) filePath content"
      using miss by (simp add: first)
    have "snd (transformAndServe env readFileSync ?st1 filePath urlPath')
            = ?st1\<lparr>transformCalls := transformCalls ?st1 @ [(content, filePath)]\<rparr>"
      using transformAndServe_miss[where readFileSync=readFileSync and filePath=filePath
        and content=content and env=env and st="?st1" and urlPath=urlPath'] rd miss1
      by (simp add: compile_and_cache_failed_state[OF bad])
    then show ?thesis by (simp add: first)
  qed
  have hit_case: "?st1 = st
            \<and> (\<exists>cached. map_of (transformCache st) filePath = Some cached
                  \<and> body (fst (transformAndServe env readFileSync st filePath urlPath))
                      = code cached)"
    if valid: "cache_valid env (transformCache st) filePath content"
  proof -
    from valid obtain cached where e: "map_of (transformCache st) filePath = Some cached"
      and h: "hash cached = simpleHash env content"
      by (auto simp: cache_valid_def split: option.splits)
    from serve_with_entry(1)[where readFileSync=readFileSync and filePath=filePath
        and content=content and env=env and st=st and urlPath=urlPath and cached=cached]
      rd e h show ?thesis
      by (simp add: cache_hit_response_fields)
  qed
  from ok_case fail_case hit_case any_case show ?thesis by blast
qed

theorem transform_cache_round_trip_witness:
  "length (transformCache fresh_server) \<le> 500
   \<and> files_Aa ''/pages/index.tsx'' = Inr ''Aa''
   \<and> \<not> cache_valid rolling_transformer (transformCache fresh_server) ''/pages/index.tsx'' ''Aa''
   \<and> transformCode rolling_transformer ''Aa'' ''/pages/index.tsx'' = Inr ''/* /pages/index.tsx */Aa''
   \<and> transformCalls (snd (transformAndServe rolling_transformer files_Aa
        (snd (transformAndServe rolling_transformer files_Aa fresh_server
                ''/pages/index.tsx'' ''/pages/index.tsx''))
        ''/pages/index.tsx'' ''/pages/index.tsx'')) = [(''Aa'', ''/pages/index.tsx'')]
   \<and> body (fst (transformAndServe rolling_transformer files_Aa
        (snd (transformAndServe rolling_transformer files_Aa fresh_server
                ''/pages/index.tsx'' ''/pages/index.tsx''))
        ''/pages/index.tsx'' ''/pages/index.tsx'')) = ''/* /pages/index.tsx */Aa''
   \<and> transformCalls (snd (transformAndServe rolling_transformer files_B
        (snd (transformAndServe rolling_transformer files_Aa fresh_server
                ''/pages/index.tsx'' ''/pages/index.tsx''))
        ''/pages/index.tsx'' ''/pages/index.tsx''))
       = [(''Aa'', ''/pages/index.tsx''), (''B'', ''/pages/index.tsx'')]"
proof -
  let ?p = "''/pages/index.tsx''"
  let ?st1 = "snd (transformAndServe rolling_transformer files_Aa fresh_server ?p ?p)"
  have h1: "length (transformCache fresh_server) \<le> 500" by (simp add: fresh_server_def)
  have h2: "files_Aa ?p = Inr ''Aa''" by (simp add: files_Aa_def)
  have h3: "\<not> cache_valid rolling_transformer (transformCache fresh_server) ?p ''Aa''"
    by (simp add: cache_valid_def fresh_server_def)
  have h4: "transformCode rolling_transformer ''Aa'' ?p = Inr ''/* /pages/index.tsx */Aa''"
    by (simp add: rolling_transformer_def)
  have h5: "files_B ?p = Inr ''B''" by (simp add: files_B_def)
  have h6: "simpleHash rolling_transformer ''B'' \<noteq> simpleHash rolling_transformer ''Aa''"
    by (simp add: rolling_transformer_def rolling_hash_values)
  have calls0: "transformCalls fresh_server = []" by (simp add: fresh_server_def)
  note T = transform_cache_round_trip[where st=fresh_server and readFileSync=files_Aa
      and filePath="?p" and content="''Aa''" and env=rolling_transformer and urlPath="?p"
      and urlPath'="?p", OF h1 h2, THEN conjunct1, rule_format, of "''/* /pages/index.tsx */Aa''"]
  from T h3 h4 have t: "transformAndServe rolling_transformer files_Aa ?st1 ?p ?p
       = (\<lparr> statusCode = 200, statusMessage = ''OK'',
             headers = [(''Content-Type'', ''application/javascript; charset=utf-8''),
                        (''Content-Length'', String_of_nat (length ''/* /pages/index.tsx */Aa'')),
                        (''Cache-Control'', ''no-cache''),
                        (''X-Transformed'', ''true''),
                        (''X-Cache'', ''hit'')],
             body = ''/* /pages/index.tsx */Aa'' \<rparr>, ?st1)"
    and c: "transformCalls ?st1 = transformCalls fresh_server @ [(''Aa'', ?p)]"
    and ch: "\<forall>readFileSync' content'. readFileSync' ?p = Inr content' \<longrightarrow>
                  (if simpleHash rolling_transformer content' = simpleHash rolling_transformer ''Aa''
                   then transformCalls (snd (transformAndServe rolling_transformer readFileSync' ?st1
                            ?p ?p))
                          = transformCalls fresh_server @ [(''Aa'', ?p)]
                        \<and> body (fst (transformAndServe rolling_transformer readFileSync' ?st1
                            ?p ?p)) = ''/* /pages/index.tsx */Aa''
                   else transformCalls (snd (transformAndServe rolling_transformer readFileSync' ?st1
                            ?p ?p))
                          = transformCalls fresh_server @ [(''Aa'', ?p), (content', ?p)])"
    by blast+
  have a: "transformCalls (snd (transformAndServe rolling_transformer files_Aa ?st1 ?p ?p))
             = [(''Aa'', ?p)]"
    by (simp only: t snd_conv c calls0 append_Nil)
  have b: "body (fst (transformAndServe rolling_transformer files_Aa ?st1 ?p ?p))
             = ''/* /pages/index.tsx */Aa''"
    by (simp only: t fst_conv) simp
  from ch[rule_format, of files_B "''B''"] h5 h6
  have d: "transformCalls (snd (transformAndServe rolling_transformer files_B ?st1 ?p ?p))
             = [(''Aa'', ?p), (''B'', ?p)]"
    by (simp only: if_False calls0 append_Nil)
  from h1 h2 h3 h4 a b d show ?thesis by blast
qed

text \<open>
  Claim C2 as stated fails. With a hash that maps the contents \<open>Aa\<close> and \<open>BB\<close> to one
  value, a request after the file has changed from \<open>Aa\<close> to \<open>BB\<close> is a cache hit:
  \<open>transformCode\<close> is not invoked again and the answer is the code compiled from
  \<open>Aa\<close>. And with a compiler that throws, two requests for the unchanged file invoke
  \<open>transformCode\<close> twice.
\<close>

theorem transform_cache_collision_counterexample:
  "''Aa'' \<noteq> ''BB''
   \<and> simpleHash rolling_transformer ''Aa'' = simpleHash rolling_transformer ''BB''
   \<and> transformCalls (snd (transformAndServe rolling_transformer files_BB
        (snd (transformAndServe rolling_transformer files_Aa fresh_server
                ''/pages/index.tsx'' ''/pages/index.tsx''))
        ''/pages/index.tsx'' ''/pages/index.tsx'')) = [(''Aa'', ''/pages/index.tsx'')]
   \<and> body (fst (transformAndServe rolling_transformer files_BB
        (snd (transformAndServe rolling_transformer files_Aa fresh_server
                ''/pages/index.tsx'' ''/pages/index.tsx''))
        ''/pages/index.tsx'' ''/pages/index.tsx'')) = ''/* /pages/index.tsx */Aa''
   \<and> map_of (headers (fst (transformAndServe rolling_transformer files_BB
        (snd (transformAndServe rolling_transformer files_Aa fresh_server
                ''/pages/index.tsx'' ''/pages/index.tsx''))
        ''/pages/index.tsx'' ''/pages/index.tsx''))) ''X-Cache'' = Some ''hit''
   \<and> transformCalls (snd (transformAndServe failing_transformer files_Aa
        (snd (transformAndServe failing_transformer files_Aa fresh_server
                ''/pages/index.tsx'' ''/pages/index.tsx''))
        ''/pages/index.tsx'' ''/pages/index.tsx''))
       = [(''Aa'', ''/pages/index.tsx''), (''Aa'', ''/pages/index.tsx'')]"
proof -
  let ?p = "''/pages/index.tsx''"
  let ?c = "''/* /pages/index.tsx */Aa''"
  let ?st1 = "snd (transformAndServe rolling_transformer files_Aa fresh_server ?p ?p)"
  let ?ft1 = "snd (transformAndServe failing_transformer files_Aa fresh_server ?p ?p)"
  have st1: "?st1 = \<lparr>transformCache = [(?p, \<lparr>code = ?c, hash = ''2112''\<rparr>)],
                      transformCalls = [(''Aa'', ?p)]\<rparr>"
    by (simp add: transformAndServe_def compile_and_cache_def files_Aa_def fresh_server_def
        rolling_transformer_def rolling_hash_values evict_oldest_def Let_def)
  have second: "transformAndServe rolling_transformer files_BB ?st1 ?p ?p
                  = (cache_hit_response ?c, ?st1)"
    unfolding st1
    by (simp add: transformAndServe_def files_BB_def rolling_transformer_def rolling_hash_values)
  have ft1: "?ft1 = \<lparr>transformCache = [], transformCalls = [(''Aa'', ?p)]\<rparr>"
    by (simp add: transformAndServe_def compile_and_cache_def files_Aa_def fresh_server_def
        failing_transformer_def Let_def)
  have a: "''Aa'' \<noteq> ''BB''" by simp
  have b: "simpleHash rolling_transformer ''Aa'' = simpleHash rolling_transformer ''BB''"
    by (simp add: rolling_transformer_def rolling_hash_values)
  have c: "transformCalls (snd (transformAndServe rolling_transformer files_BB ?st1 ?p ?p))
             = [(''Aa'', ?p)]"
    by (simp only: second snd_conv) (simp add: st1)
  have d: "body (fst (transformAndServe rolling_transformer files_BB ?st1 ?p ?p)) = ?c"
    by (simp only: second fst_conv) (simp add: cache_hit_response_def)
  have e: "map_of (headers (fst (transformAndServe rolling_transformer files_BB ?st1 ?p ?p)))
             ''X-Cache'' = Some ''hit''"
    by (simp only: second fst_conv) (simp add: cache_hit_response_def)
  have f: "transformCalls (snd (transformAndServe failing_transformer files_Aa ?ft1 ?p ?p))
             = [(''Aa'', ?p), (''Aa'', ?p)]"
    unfolding ft1
    by (simp add: transformAndServe_def compile_and_cache_def files_Aa_def
        failing_transformer_def Let_def)
  from a b c d e f show ?thesis by blast
qed


text \<open>
  Claim C3 as stated fails: compile content A, then content B, then revert to A, all for one
  path. The third request is no cache hit and calls \<open>transformCode\<close> a third time.
\<close>

theorem transform_cache_revert_counterexample:
  "transformCalls server_after_A = [(''A'', ''/pages/index.tsx'')]
   \<and> transformCalls server_after_A_B = [(''A'', ''/pages/index.tsx''), (''B'', ''/pages/index.tsx'')]
   \<and> transformCalls (snd (transformAndServe demo_transformer files_A server_after_A_B
          ''/pages/index.tsx'' ''/pages/index.tsx''))
       = [(''A'', ''/pages/index.tsx''), (''B'', ''/pages/index.tsx''), (''A'', ''/pages/index.tsx'')]
   \<and> map_of (headers (fst (transformAndServe demo_transformer files_A server_after_A_B
          ''/pages/index.tsx'' ''/pages/index.tsx''))) ''X-Cache'' = None"
  by code_simp


lemma compile_and_cache_cache:
  assumes "transformCode env content filePath = Inr compiled"
  shows "transformCache (snd (compile_and_cache env st filePath content))
           = evict_oldest (AList.update filePath
                 \<lparr>code = compiled, hash = simpleHash env content\<rparr> (transformCache st))"
  by (simp add: compile_and_cache_ok[OF assms])

lemma compile_and_cache_failed:
  assumes "transformCode env content filePath = Inl err"
  shows "transformCache (snd (compile_and_cache env st filePath content)) = transformCache st"
  using assms by (simp add: compile_and_cache_def Let_def)

text \<open>
  Claim C4. A call of \<open>transformAndServe\<close> keeps the cache a map of at most 500
  entries. When the call inserts and the insertion makes 501 entries, the result is the
  cache without its first pair, which is the oldest key; a cache hit leaves the state,
  and so the order, as it is. File paths are never empty: every caller passes a path that
  starts with a slash or ends in an extension.
\<close>

theorem transform_cache_bounded_fifo:
  assumes inv: "cache_inv (transformCache st)" and ne: "filePath \<noteq> []"
  shows "cache_inv (transformCache (snd (transformAndServe env readFileSync st filePath urlPath)))
       \<and> length (transformCache (snd (transformAndServe env readFileSync st filePath urlPath))) \<le> 500
       \<and> (\<forall>content compiled.
             readFileSync filePath = Inr content
             \<and> \<not> cache_valid env (transformCache st) filePath content
             \<and> transformCode env content filePath = Inr compiled \<longrightarrow>
             transformCache (snd (transformAndServe env readFileSync st filePath urlPath))
               = (let inserted = AList.update filePath
                                   \<lparr>code = compiled, hash = simpleHash env content\<rparr>
                                   (transformCache st)
                  in if length inserted > 500 then tl inserted else inserted))
       \<and> (\<forall>content. readFileSync filePath = Inr content
             \<and> cache_valid env (transformCache st) filePath content \<longrightarrow>
             snd (transformAndServe env readFileSync st filePath urlPath) = st)"
proof -
  let ?st' = "snd (transformAndServe env readFileSync st filePath urlPath)"
  have ins: "transformCache ?st'
               = (let inserted = AList.update filePath
                                   \<lparr>code = compiled, hash = simpleHash env content\<rparr>
                                   (transformCache st)
                  in if length inserted > 500 then tl inserted else inserted)"
    if "readFileSync filePath = Inr content"
      and "\<not> cache_valid env (transformCache st) filePath content"
      and "transformCode env content filePath = Inr compiled" for content compiled
    using transformAndServe_miss[where readFileSync=readFileSync and filePath=filePath
        and content=content and env=env and st=st and urlPath=urlPath] that
      cache_inv_update_evict(2)[OF inv ne]
    by (simp add: compile_and_cache_cache Let_def)
  have hit: "?st' = st"
    if "readFileSync filePath = Inr content"
      and "cache_valid env (transformCache st) filePath content" for content
    using that by (auto simp: transformAndServe_def cache_valid_def split: option.splits)
  have inv': "cache_inv (transformCache ?st')"
  proof (cases "readFileSync filePath")
    case (Inl err)
    then show ?thesis using inv by (simp add: transformAndServe_def)
  next
    case (Inr content)
    show ?thesis
    proof (cases "cache_valid env (transformCache st) filePath content")
      case True
      with hit[OF Inr] inv show ?thesis by simp
    next
      case False
      note miss = transformAndServe_miss[where readFileSync=readFileSync and filePath=filePath
        and content=content and env=env and st=st and urlPath=urlPath, OF Inr False]
      show ?thesis
      proof (cases "transformCode env content filePath")
        case (Inl err)
        then show ?thesis using inv miss by (simp add: compile_and_cache_failed)
      next
        case (Inr compiled)
        then show ?thesis
          using miss cache_inv_update_evict(1)[OF inv ne]
          by (simp add: compile_and_cache_cache)
      qed
    qed
  qed
  then have "length (transformCache ?st') \<le> 500" by (simp add: cache_inv_def)
  with inv' ins hit show ?thesis by blast
qed

text \<open>
  Claim C3, as amended. A request is a cache hit, with no call of \<open>transformCode\<close>,
  when the one entry stored for the path has the hash of the file's current content; when
  it has not, \<open>transformCode\<close> is called. So a revert is a hit only while the entry is
  the one compiled from that content: after a request that compiled content of another
  hash for the same path, the revert calls \<open>transformCode\<close> again.
\<close>

theorem transform_cache_content_addressed:
  assumes rd: "readFileSync filePath = Inr content"
    and inv: "cache_inv (transformCache st)" and ne: "filePath \<noteq> []"
  shows "(\<forall>cached. map_of (transformCache st) filePath = Some cached
              \<and> hash cached = simpleHash env content \<longrightarrow>
            transformAndServe env readFileSync st filePath urlPath
              = (cache_hit_response (code cached), st))
       \<and> (\<not> cache_valid env (transformCache st) filePath content \<longrightarrow>
            transformCalls (snd (transformAndServe env readFileSync st filePath urlPath))
              = transformCalls st @ [(content, filePath)])
       \<and> (\<forall>readOther other compiled compiledOther.
            \<not> cache_valid env (transformCache st) filePath content
            \<and> transformCode env content filePath = Inr compiled
            \<and> readOther filePath = Inr other
            \<and> transformCode env other filePath = Inr compiledOther
            \<and> simpleHash env other \<noteq> simpleHash env content \<longrightarrow>
            transformCalls (snd (transformAndServe env readFileSync
               (snd (transformAndServe env readOther
                 (snd (transformAndServe env readFileSync st filePath urlPath))
                 filePath urlPath))
               filePath urlPath))
              = transformCalls st @ [(content, filePath), (other, filePath), (content, filePath)])"
proof (intro conjI allI impI)
  fix cached
  assume "map_of (transformCache st) filePath = Some cached \<and> hash cached = simpleHash env content"
  then show "transformAndServe env readFileSync st filePath urlPath
              = (cache_hit_response (code cached), st)"
    using rd by (simp add: transformAndServe_def)
next
  assume "\<not> cache_valid env (transformCache st) filePath content"
  then show "transformCalls (snd (transformAndServe env readFileSync st filePath urlPath))
              = transformCalls st @ [(content, filePath)]"
    using transformAndServe_miss[where readFileSync=readFileSync and filePath=filePath
        and content=content and env=env and st=st and urlPath=urlPath] rd
    by (simp add: compile_and_cache_calls)
next
  fix readOther :: "string \<Rightarrow> thrown + string" and other compiled compiledOther
  assume a: "\<not> cache_valid env (transformCache st) filePath content
            \<and> transformCode env content filePath = Inr compiled
            \<and> readOther filePath = Inr other
            \<and> transformCode env other filePath = Inr compiledOther
            \<and> simpleHash env other \<noteq> simpleHash env content"
  let ?eA = "\<lparr>code = compiled, hash = simpleHash env content\<rparr>"
  let ?eB = "\<lparr>code = compiledOther, hash = simpleHash env other\<rparr>"
  let ?st1 = "snd (transformAndServe env readFileSync st filePath urlPath)"
  let ?st2 = "snd (transformAndServe env readOther ?st1 filePath urlPath)"
  have len: "length (transformCache st) \<le> 500" using inv by (simp add: cache_inv_def)
  have st1: "?st1 = \<lparr>transformCache = evict_oldest (AList.update filePath ?eA (transformCache st)),
                       transformCalls = transformCalls st @ [(content, filePath)]\<rparr>"
    using transformAndServe_miss[where readFileSync=readFileSync and filePath=filePath
        and content=content and env=env and st=st and urlPath=urlPath] rd a
    by (simp add: compile_and_cache_ok)
  have look1: "map_of (transformCache ?st1) filePath = Some ?eA"
    by (simp add: st1 evict_oldest_keeps[OF len])
  have inv1: "cache_inv (transformCache ?st1)"
    using cache_inv_update_evict(1)[OF inv ne] by (simp add: st1)
  then have len1: "length (transformCache ?st1) \<le> 500" by (simp add: cache_inv_def)
  have miss2: "\<not> cache_valid env (transformCache ?st1) filePath other"
    using look1 a by (auto simp: cache_valid_def)
  have st2: "?st2 = \<lparr>transformCache = evict_oldest (AList.update filePath ?eB (transformCache ?st1)),
                       transformCalls = transformCalls ?st1 @ [(other, filePath)]\<rparr>"
    using transformAndServe_miss[where readFileSync=readOther and filePath=filePath
        and content=other and env=env and st="?st1" and urlPath=urlPath] miss2 a
    by (simp add: compile_and_cache_ok)
  have look2: "map_of (transformCache ?st2) filePath = Some ?eB"
    by (simp add: st2 evict_oldest_keeps[OF len1])
  have miss3: "\<not> cache_valid env (transformCache ?st2) filePath content"
    using look2 a by (auto simp: cache_valid_def)
  have "transformCalls (snd (transformAndServe env readFileSync ?st2 filePath urlPath))
          = transformCalls ?st2 @ [(content, filePath)]"
    using transformAndServe_miss[where readFileSync=readFileSync and filePath=filePath
        and content=content and env=env and st="?st2" and urlPath=urlPath] rd miss3
    by (simp add: compile_and_cache_calls)
  also have "transformCalls ?st2 = transformCalls st @ [(content, filePath), (other, filePath)]"
    by (simp add: st2) (simp add: st1)
  finally show "transformCalls (snd (transformAndServe env readFileSync ?st2 filePath urlPath))
              = transformCalls st @ [(content, filePath), (other, filePath), (content, filePath)]"
    by simp
qed


lemma full_key_inj: "full_key n = full_key m \<Longrightarrow> n = m"
proof -
  assume "full_key n = full_key m"
  then have "length (full_key n) = length (full_key m)" by simp
  then show "n = m" by (simp add: full_key_def)
qed

lemma full_server_inv: "cache_inv (transformCache full_server)"
proof -
  have "distinct (map full_key [0..<500])"
    by (simp add: distinct_map inj_on_def) (blast dest: full_key_inj)
  moreover have "map fst (transformCache full_server) = map full_key [0..<500]"
    by (simp add: full_server_def comp_def)
  moreover have "[] \<notin> set (map full_key [0..<500])" by (auto simp: full_key_def)
  moreover have "length (transformCache full_server) = 500" by (simp add: full_server_def)
  ultimately show ?thesis by (simp add: cache_inv_def)
qed

lemma full_server_fresh: "''/pages/index.tsx'' \<notin> fst ` set (transformCache full_server)"
  by (auto simp: full_server_def full_key_def)

theorem transform_cache_bounded_fifo_witness:
  "cache_inv (transformCache full_server)
   \<and> ''/pages/index.tsx'' \<noteq> []
   \<and> length (transformCache full_server) = 500
   \<and> length (transformCache (snd (transformAndServe demo_transformer files_A full_server
         ''/pages/index.tsx'' ''/pages/index.tsx''))) = 500
   \<and> transformCache (snd (transformAndServe demo_transformer files_A full_server
         ''/pages/index.tsx'' ''/pages/index.tsx''))
       = tl (transformCache full_server)
         @ [(''/pages/index.tsx'', \<lparr>code = ''/* /pages/index.tsx */A'', hash = ''A''\<rparr>)]"
proof -
  let ?p = "''/pages/index.tsx''"
  let ?e = "\<lparr>code = ''/* /pages/index.tsx */A'', hash = ''A''\<rparr>"
  have ne: "?p \<noteq> []" by simp
  have len: "length (transformCache full_server) = 500" by (simp add: full_server_def)
  have rd: "files_A ?p = Inr ''A''" by (simp add: files_A_def)
  have tc: "transformCode demo_transformer ''A'' ?p = Inr ''/* /pages/index.tsx */A''"
    by (simp add: demo_transformer_def)
  have h: "simpleHash demo_transformer ''A'' = ''A''" by (simp add: demo_transformer_def)
  have none: "map_of (transformCache full_server) ?p = None"
    using full_server_fresh by (simp add: map_of_eq_None_iff)
  then have miss: "\<not> cache_valid demo_transformer (transformCache full_server) ?p ''A''"
    by (simp add: cache_valid_def)
  have ins: "AList.update ?p ?e (transformCache full_server) = transformCache full_server @ [(?p, ?e)]"
    using full_server_fresh by (rule update_fresh_append)
  note T = transform_cache_bounded_fifo[where st=full_server and filePath="?p"
      and env=demo_transformer and readFileSync=files_A and urlPath="?p", OF full_server_inv ne]
  from T[THEN conjunct2, THEN conjunct2, THEN conjunct1, rule_format, of "''A''" "''/* /pages/index.tsx */A''"]
    rd miss tc
  have "transformCache (snd (transformAndServe demo_transformer files_A full_server ?p ?p))
       = (let inserted = AList.update ?p \<lparr>code = ''/* /pages/index.tsx */A'', hash = simpleHash demo_transformer ''A''\<rparr>
                                   (transformCache full_server)
                  in if length inserted > 500 then tl inserted else inserted)"
    by blast
  then have res: "transformCache (snd (transformAndServe demo_transformer files_A full_server ?p ?p))
       = tl (transformCache full_server) @ [(?p, ?e)]"
    unfolding h Let_def ins using len by (cases "transformCache full_server") auto
  then have "length (transformCache (snd (transformAndServe demo_transformer files_A full_server ?p ?p))) = 500"
    using len by simp
  with full_server_inv ne len res show ?thesis by blast
qed

lemma server_after_A_inv: "cache_inv (transformCache server_after_A)"
  by code_simp

theorem transform_cache_content_addressed_witness:
  "files_A ''/pages/index.tsx'' = Inr ''A''
   \<and> cache_inv (transformCache fresh_server)
   \<and> cache_inv (transformCache server_after_A)
   \<and> ''/pages/index.tsx'' \<noteq> []
   \<and> transformAndServe demo_transformer files_A server_after_A
         ''/pages/index.tsx'' ''/pages/index.tsx''
       = (cache_hit_response ''/* /pages/index.tsx */A'', server_after_A)
   \<and> transformCalls (snd (transformAndServe demo_transformer files_B server_after_A
         ''/pages/index.tsx'' ''/pages/index.tsx''))
       = [(''A'', ''/pages/index.tsx''), (''B'', ''/pages/index.tsx'')]"
proof -
  let ?p = "''/pages/index.tsx''"
  have rd: "files_A ?p = Inr ''A''" by (simp add: files_A_def)
  have rdB: "files_B ?p = Inr ''B''" by (simp add: files_B_def)
  have inv0: "cache_inv (transformCache fresh_server)"
    by (simp add: fresh_server_def cache_inv_def)
  have ne: "?p \<noteq> []" by simp
  have look: "map_of (transformCache server_after_A) ?p
      = Some \<lparr>code = ''/* /pages/index.tsx */A'', hash = ''A''\<rparr>" by code_simp
  have calls: "transformCalls server_after_A = [(''A'', ?p)]" by code_simp
  have missB: "\<not> cache_valid demo_transformer (transformCache server_after_A) ?p ''B''"
    using look by (simp add: cache_valid_def demo_transformer_def)
  note TA = transform_cache_content_addressed[where readFileSync=files_A and filePath="?p"
      and content="''A''" and st=server_after_A and env=demo_transformer and urlPath="?p",
      OF rd server_after_A_inv ne]
  note TB = transform_cache_content_addressed[where readFileSync=files_B and filePath="?p"
      and content="''B''" and st=server_after_A and env=demo_transformer and urlPath="?p",
      OF rdB server_after_A_inv ne]
  have hit: "transformAndServe demo_transformer files_A server_after_A ?p ?p
       = (cache_hit_response ''/* /pages/index.tsx */A'', server_after_A)"
    using TA[THEN conjunct1, rule_format, of "\<lparr>code = ''/* /pages/index.tsx */A'', hash = ''A''\<rparr>"]
      look by (simp add: demo_transformer_def)
  have miss: "transformCalls (snd (transformAndServe demo_transformer files_B server_after_A ?p ?p))
       = [(''A'', ?p), (''B'', ?p)]"
    using TB[THEN conjunct2, THEN conjunct1] missB calls by simp
  from rd inv0 server_after_A_inv ne hit miss show ?thesis by blast
qed

section \<open>Properties of the mock responses\<close>

lemma res_call_step:
  "ended (res_call stringify r c) = (ended r \<or> completes stringify c)"
  "resolveEnded_calls (res_call stringify r c)
     = (if completes stringify c \<and> \<not> ended r then resolveEnded_calls r + 1
        else resolveEnded_calls r)"
  "headersSent (res_call stringify r c) = (headersSent r \<or> is_write c)"
  "this_headersSent (res_call stringify r c) = (this_headersSent r \<or> (is_write c \<and> \<not> headersSent r))"
  by (cases "(stringify, r, c)" rule: res_call.cases;
      simp add: markEnded_def res_json_def completes_def Let_def split: sum.splits)+

lemma completes_total:
  "\<not> list_ex (throws stringify) cs \<Longrightarrow> list_ex (completes stringify) cs = list_ex is_terminal cs"
  by (induction cs) (auto simp: completes_def)

lemma res_calls_snoc:
  "res_calls stringify (cs @ [c]) = res_call stringify (res_calls stringify cs) c"
  by (simp add: res_calls_def)

lemma res_calls_inv:
  "ended (res_calls stringify cs) = list_ex (completes stringify) cs
   \<and> resolveEnded_calls (res_calls stringify cs) = (if list_ex (completes stringify) cs then 1 else 0)
   \<and> headersSent (res_calls stringify cs) = list_ex is_write cs
   \<and> this_headersSent (res_calls stringify cs) = list_ex is_write cs"
proof (induction cs rule: rev_induct)
  case Nil
  show ?case by (simp add: res_calls_def createMockResponse_def)
next
  case (snoc c cs)
  then show ?case
    by (auto simp: res_calls_snoc res_call_step)
qed

text \<open>
  Claim C8, as amended. Whatever the handler calls on the buffered response, and in
  whatever order, \<open>resolveEnded\<close> is called once if a terminal method (\<open>json\<close>,
  \<open>send\<close>, \<open>end\<close>, \<open>redirect\<close>) among the calls has returned and never otherwise,
  so a second \<open>end()\<close> does not resolve the completion signal again; when no call throws,
  that is once if a terminal method is among the calls. \<open>headersSent\<close>, the closure
  variable and the property alike, is true exactly when \<open>write\<close> has been called.
\<close>

theorem buffered_response_completes_once:
  "resolveEnded_calls (res_calls stringify cs) = (if list_ex (completes stringify) cs then 1 else 0)
   \<and> ended (res_calls stringify cs) = list_ex (completes stringify) cs
   \<and> headersSent (res_calls stringify cs) = list_ex is_write cs
   \<and> this_headersSent (res_calls stringify cs) = list_ex is_write cs
   \<and> (\<not> list_ex (throws stringify) cs \<longrightarrow>
         resolveEnded_calls (res_calls stringify cs) = (if list_ex is_terminal cs then 1 else 0)
         \<and> ended (res_calls stringify cs) = list_ex is_terminal cs)"
  using res_calls_inv[of stringify cs] completes_total[of stringify cs] by simp

theorem buffered_response_completes_once_witness:
  "\<not> list_ex (throws text_stringify) [End None, End None]
   \<and> resolveEnded_calls (res_calls text_stringify [End None, End None]) = 1
   \<and> \<not> list_ex (throws text_stringify) [Json ''{}'', End (Some ''more''), Send (Inl ''x'')]
   \<and> resolveEnded_calls (res_calls text_stringify [Json ''{}'', End (Some ''more''), Send (Inl ''x'')]) = 1
   \<and> headersSent (res_calls text_stringify [Write ''chunk'', End None])
   \<and> resolveEnded_calls (res_calls strict_stringify [Json ''circular'']) = 0
   \<and> resolveEnded_calls (res_calls strict_stringify [Json ''circular'', End None, End None]) = 1"
proof -
  have t1: "\<not> list_ex (throws text_stringify) [End None, End None]" by code_simp
  have t2: "\<not> list_ex (throws text_stringify) [Json ''{}'', End (Some ''more''), Send (Inl ''x'')]"
    by code_simp
  have c1: "list_ex is_terminal [End None, End None :: string handler_call]" by simp
  have c2: "list_ex is_terminal [Json ''{}'', End (Some ''more''), Send (Inl ''x'')]" by simp
  have c3: "list_ex is_write [Write ''chunk'', End None :: string handler_call]" by simp
  have c4: "\<not> list_ex (completes strict_stringify) [Json ''circular'']" by code_simp
  have c5: "list_ex (completes strict_stringify) [Json ''circular'', End None, End None]"
    by code_simp
  from buffered_response_completes_once[of text_stringify "[End None, End None]"] t1 c1
  have a: "resolveEnded_calls (res_calls text_stringify [End None, End None]) = 1" by simp
  from buffered_response_completes_once[of text_stringify
      "[Json ''{}'', End (Some ''more''), Send (Inl ''x'')]"] t2 c2
  have b: "resolveEnded_calls (res_calls text_stringify
      [Json ''{}'', End (Some ''more''), Send (Inl ''x'')]) = 1" by simp
  from buffered_response_completes_once[of text_stringify "[Write ''chunk'', End None]"] c3
  have c: "headersSent (res_calls text_stringify [Write ''chunk'', End None])" by simp
  from buffered_response_completes_once[of strict_stringify "[Json ''circular'']"] c4
  have d: "resolveEnded_calls (res_calls strict_stringify [Json ''circular'']) = 0" by simp
  from buffered_response_completes_once[of strict_stringify "[Json ''circular'', End None, End None]"] c5
  have e: "resolveEnded_calls (res_calls strict_stringify [Json ''circular'', End None, End None]) = 1"
    by simp
  from t1 t2 a b c d e show ?thesis by blast
qed

text \<open>
  Claim C8 as stated fails: \<open>end('done')\<close> puts bytes into the body and leaves
  \<open>headersSent\<close> false; so do \<open>json\<close> and \<open>send\<close>.
\<close>

theorem buffered_headersSent_counterexample:
  "produces_bytes (End (Some ''done'') :: string handler_call)
   \<and> responseBody (res_calls text_stringify [End (Some ''done'')]) = Some ''done''
   \<and> \<not> headersSent (res_calls text_stringify [End (Some ''done'')])
   \<and> \<not> this_headersSent (res_calls text_stringify [End (Some ''done'')])
   \<and> \<not> headersSent (res_calls text_stringify [Json ''{}'', End None])
   \<and> \<not> headersSent (res_calls text_stringify [Send (Inl ''text'')])"
  by code_simp


lemma stream_inv_init: "stream_inv createStreamingMockResponse"
  by (simp add: stream_inv_def createStreamingMockResponse_def)

lemma stream_inv_fields:
  "stream_inv r \<Longrightarrow> events r' = events r \<Longrightarrow> str_headersSent r' = str_headersSent r
     \<Longrightarrow> str_ended r' = str_ended r \<Longrightarrow> stream_inv r'"
  by (simp add: stream_inv_def)

lemma stream_inv_sendHeaders: "stream_inv r \<Longrightarrow> stream_inv (sendHeaders r)"
  by (auto simp: stream_inv_def sendHeaders_def split: if_splits)

lemma sendHeaders_sent [simp]: "str_headersSent (sendHeaders r)"
  by (simp add: sendHeaders_def)

lemma sendHeaders_ended [simp]: "str_ended (sendHeaders r) = str_ended r"
  by (simp add: sendHeaders_def)

lemma stream_inv_onChunk:
  "stream_inv r \<Longrightarrow> str_headersSent r \<Longrightarrow> stream_inv (onChunk d r)"
  by (cases "events r") (auto simp: stream_inv_def onChunk_def split: if_splits)

lemma onChunk_fields [simp]:
  "str_headersSent (onChunk d r) = str_headersSent r"
  "str_ended (onChunk d r) = str_ended r"
  by (simp_all add: onChunk_def)

lemma stream_inv_markEnded: "stream_inv r \<Longrightarrow> stream_inv (str_markEnded r)"
  by (cases "events r")
     (auto simp: stream_inv_def str_markEnded_def sendHeaders_def Let_def split: if_splits)

lemma str_markEnded_fields [simp]:
  "str_ended (str_markEnded r)"
  by (simp_all add: str_markEnded_def Let_def)

lemma stream_inv_step: "stream_inv r \<Longrightarrow> stream_inv (str_call stringify r c)"
proof (cases "(stringify, r, c)" rule: str_call.cases)
qed (auto simp: str_json_def Let_def split: sum.splits
       intro!: stream_inv_markEnded stream_inv_onChunk stream_inv_sendHeaders
       elim: stream_inv_fields)


lemma str_calls_snoc:
  "str_calls stringify (cs @ [c]) = str_call stringify (str_calls stringify cs) c"
  by (simp add: str_calls_def)

lemma str_calls_append:
  "str_calls stringify (cs @ ds) = foldl (str_call stringify) (str_calls stringify cs) ds"
  by (simp add: str_calls_def)

lemma stream_inv_calls: "stream_inv (str_calls stringify cs)"
  by (induction cs rule: rev_induct)
     (simp_all add: str_calls_snoc stream_inv_step, simp add: str_calls_def stream_inv_init)



lemma str_call_flags:
  "str_ended (str_call stringify r c) = (str_ended r \<or> completes stringify c)"
  "str_headersSent r \<or> \<not> str_ended r \<Longrightarrow>
     str_headersSent (str_call stringify r c) = (str_headersSent r \<or> invokes_callback c)"
proof -
  show "str_ended (str_call stringify r c) = (str_ended r \<or> completes stringify c)"
    by (cases "(stringify, r, c)" rule: str_call.cases)
       (simp_all add: str_json_def str_markEnded_def completes_def Let_def split: sum.splits)
  assume "str_headersSent r \<or> \<not> str_ended r"
  then show "str_headersSent (str_call stringify r c) = (str_headersSent r \<or> invokes_callback c)"
    by (cases "(stringify, r, c)" rule: str_call.cases)
       (auto simp: str_json_def str_markEnded_def Let_def invokes_callback_def split: sum.splits)
qed

lemma stream_inv_ended_sent: "stream_inv r \<Longrightarrow> str_ended r \<Longrightarrow> str_headersSent r"
  by (auto simp: stream_inv_def split: if_splits)

lemma str_calls_flags:
  "str_ended (str_calls stringify cs) = list_ex (completes stringify) cs
   \<and> str_headersSent (str_calls stringify cs) = list_ex invokes_callback cs"
proof (induction cs rule: rev_induct)
  case Nil
  show ?case by (simp add: str_calls_def createStreamingMockResponse_def)
next
  case (snoc c cs)
  have "str_headersSent (str_calls stringify cs) \<or> \<not> str_ended (str_calls stringify cs)"
    using stream_inv_ended_sent[OF stream_inv_calls] by blast
  with snoc show ?case
    by (auto simp: str_calls_snoc str_call_flags)
qed

lemma str_call_after_end:
  assumes "str_ended r" "str_headersSent r"
  shows "events (str_call stringify r c) = events r @ map OnChunk (chunks_of stringify c)
       \<and> str_ended (str_call stringify r c) \<and> str_headersSent (str_call stringify r c)"
  using assms
  by (cases "(stringify, r, c)" rule: str_call.cases)
     (simp_all add: str_json_def str_markEnded_def sendHeaders_def onChunk_def Let_def
        split: sum.splits)

lemma foldl_after_end:
  assumes "str_ended r" "str_headersSent r"
  shows "events (foldl (str_call stringify) r cs)
           = events r @ map OnChunk (concat (map (chunks_of stringify) cs))"
  using assms
proof (induction cs arbitrary: r)
  case Nil
  show ?case by simp
next
  case (Cons c cs)
  from str_call_after_end[OF Cons.prems, of stringify c]
  have e: "events (str_call stringify r c) = events r @ map OnChunk (chunks_of stringify c)"
    and f: "str_ended (str_call stringify r c)" "str_headersSent (str_call stringify r c)"
    by simp_all
  from Cons.IH[OF f] e show ?case by simp
qed

lemma str_call_terminal_last:
  assumes "\<not> str_ended r" "completes stringify t"
  shows "events (str_call stringify r t) \<noteq> [] \<and> last (events (str_call stringify r t)) = OnEnd"
  using assms
  by (cases "(stringify, r, t)" rule: str_call.cases)
     (auto simp: str_json_def str_markEnded_def completes_def Let_def split: sum.splits)


text \<open>
  Claim C9, as amended. For every sequence of calls on the streaming response: there are
  no events exactly when no \<open>write\<close> and no terminal method was called; otherwise the
  first event is the one \<open>onStart\<close>. \<open>onEnd\<close> is invoked once if a terminal method
  among the calls has returned and never otherwise: a \<open>json\<close> that throws in
  \<open>JSON.stringify\<close> has invoked \<open>onStart\<close> and neither \<open>onChunk\<close> nor \<open>onEnd\<close>.
  At the first terminal call that returns \<open>onEnd\<close> is the last event, after every chunk
  so far; the calls after it add nothing but their chunks.
\<close>

theorem streaming_callbacks_shape:
  "(events (str_calls stringify cs) = [] \<longleftrightarrow> \<not> list_ex invokes_callback cs)
   \<and> (list_ex invokes_callback cs \<longrightarrow>
         is_OnStart (hd (events (str_calls stringify cs)))
         \<and> \<not> list_ex is_OnStart (tl (events (str_calls stringify cs))))
   \<and> length (filter (\<lambda>e. e = OnEnd) (events (str_calls stringify cs)))
        = (if list_ex (completes stringify) cs then 1 else 0)
   \<and> (\<not> list_ex (throws stringify) cs \<longrightarrow>
         length (filter (\<lambda>e. e = OnEnd) (events (str_calls stringify cs)))
           = (if list_ex is_terminal cs then 1 else 0))
   \<and> (\<forall>pre t post. cs = pre @ t # post \<and> completes stringify t
                      \<and> \<not> list_ex (completes stringify) pre \<longrightarrow>
         last (events (str_calls stringify (pre @ [t]))) = OnEnd
         \<and> events (str_calls stringify cs)
             = events (str_calls stringify (pre @ [t]))
               @ map OnChunk (concat (map (chunks_of stringify) post)))
   \<and> (\<forall>pre data. cs = pre @ [Json data] \<and> throws stringify (Json data) \<longrightarrow>
         events (str_calls stringify cs)
           = events (str_calls stringify pre)
             @ (if list_ex invokes_callback pre then []
                else [OnStart (str_statusCode (str_calls stringify pre))
                        (str_statusMessage (str_calls stringify pre))
                        (AList.update ''Content-Type'' ''application/json; charset=utf-8''
                           (str_headers (str_calls stringify pre)))]))"
proof -
  let ?r = "str_calls stringify cs"
  have inv: "stream_inv ?r" by (rule stream_inv_calls)
  have flags: "str_ended ?r = list_ex (completes stringify) cs"
    "str_headersSent ?r = list_ex invokes_callback cs"
    using str_calls_flags[of stringify cs] by simp_all
  have a: "events ?r = [] \<longleftrightarrow> \<not> list_ex invokes_callback cs"
    using inv flags by (auto simp: stream_inv_def split: if_splits)
  have b: "is_OnStart (hd (events ?r)) \<and> \<not> list_ex is_OnStart (tl (events ?r))"
    if "list_ex invokes_callback cs"
    using inv a that by (auto simp: stream_inv_def split: if_splits)
  have c: "length (filter (\<lambda>e. e = OnEnd) (events ?r))
             = (if list_ex (completes stringify) cs then 1 else 0)"
  proof (cases "events ?r = []")
    case True
    with inv flags show ?thesis by (simp add: stream_inv_def)
  next
    case False
    with inv flags show ?thesis by (simp add: stream_inv_def)
  qed
  have c': "length (filter (\<lambda>e. e = OnEnd) (events ?r)) = (if list_ex is_terminal cs then 1 else 0)"
    if "\<not> list_ex (throws stringify) cs"
    using c completes_total[OF that] by simp
  have d: "last (events (str_calls stringify (pre @ [t]))) = OnEnd
         \<and> events ?r = events (str_calls stringify (pre @ [t]))
               @ map OnChunk (concat (map (chunks_of stringify) post))"
    if "cs = pre @ t # post \<and> completes stringify t \<and> \<not> list_ex (completes stringify) pre"
    for pre t post
  proof -
    let ?p = "str_calls stringify pre"
    let ?q = "str_calls stringify (pre @ [t])"
    from that have cs: "cs = (pre @ [t]) @ post" and t: "completes stringify t"
      and pre: "\<not> list_ex (completes stringify) pre" by simp_all
    have "\<not> str_ended ?p" using str_calls_flags[of stringify pre] pre by simp
    from str_call_terminal_last[OF this t]
    have l: "last (events ?q) = OnEnd" by (simp add: str_calls_snoc)
    have e: "str_ended ?q" using str_calls_flags[of stringify "pre @ [t]"] t by simp
    then have h: "str_headersSent ?q" using stream_inv_ended_sent[OF stream_inv_calls] by blast
    have "events ?r = events ?q @ map OnChunk (concat (map (chunks_of stringify) post))"
      unfolding cs str_calls_append[of stringify "pre @ [t]" post]
      by (rule foldl_after_end[OF e h])
    with l show ?thesis by simp
  qed
  have f: "events ?r = events (str_calls stringify pre)
             @ (if list_ex invokes_callback pre then []
                else [OnStart (str_statusCode (str_calls stringify pre))
                        (str_statusMessage (str_calls stringify pre))
                        (AList.update ''Content-Type'' ''application/json; charset=utf-8''
                           (str_headers (str_calls stringify pre)))])"
    if "cs = pre @ [Json data] \<and> throws stringify (Json data)" for pre data
  proof -
    from that obtain err where "stringify data = Inl err" by (cases "stringify data") auto
    then show ?thesis
      using that str_calls_flags[of stringify pre]
      by (simp add: str_calls_snoc str_json_def sendHeaders_def Let_def)
  qed
  from a b c c' d f show ?thesis by blast
qed

theorem streaming_callbacks_shape_witness:
  "list_ex invokes_callback [Status 201, Write ''a'', End (Some ''b''), Write ''late'' :: string handler_call]
   \<and> completes text_stringify (End (Some ''b''))
   \<and> \<not> list_ex (completes text_stringify) [Status 201, Write ''a'']
   \<and> events (str_calls text_stringify [Status 201, Write ''a'', End (Some ''b'')])
       = [OnStart 201 ''OK'' [], OnChunk (Some ''a''), OnChunk (Some ''b''), OnEnd]
   \<and> events (str_calls text_stringify [Status 201, Write ''a'', End (Some ''b''), Write ''late''])
       = [OnStart 201 ''OK'' [], OnChunk (Some ''a''), OnChunk (Some ''b''), OnEnd,
          OnChunk (Some ''late'')]
   \<and> callbacks_in_order (events (str_calls text_stringify [Status 201, Write ''a'', End (Some ''b'')]))
   \<and> throws strict_stringify (Json ''circular'')
   \<and> events (str_calls strict_stringify [Status 201, Json ''circular''])
       = [OnStart 201 ''OK'' [(''Content-Type'', ''application/json; charset=utf-8'')]]"
proof -
  let ?pre = "[Status 201, Write ''a''] :: string handler_call list"
  let ?t = "End (Some ''b'') :: string handler_call"
  let ?post = "[Write ''late''] :: string handler_call list"
  have h1: "list_ex invokes_callback (?pre @ ?t # ?post)" by code_simp
  have h2: "completes text_stringify ?t" by code_simp
  have h3: "\<not> list_ex (completes text_stringify) ?pre" by code_simp
  have e1: "events (str_calls text_stringify (?pre @ [?t]))
       = [OnStart 201 ''OK'' [], OnChunk (Some ''a''), OnChunk (Some ''b''), OnEnd]" by code_simp
  have ok: "callbacks_in_order (events (str_calls text_stringify (?pre @ [?t])))" by code_simp
  note T = streaming_callbacks_shape[of text_stringify "?pre @ ?t # ?post"]
  from T[THEN conjunct2, THEN conjunct2, THEN conjunct2, THEN conjunct2, THEN conjunct1,
         rule_format, of ?pre ?t ?post] h2 h3
  have "events (str_calls text_stringify (?pre @ ?t # ?post))
             = events (str_calls text_stringify (?pre @ [?t]))
               @ map OnChunk (concat (map (chunks_of text_stringify) ?post))"
    by blast
  then have e2: "events (str_calls text_stringify (?pre @ ?t # ?post))
       = [OnStart 201 ''OK'' [], OnChunk (Some ''a''), OnChunk (Some ''b''), OnEnd,
          OnChunk (Some ''late'')]"
    unfolding e1 by simp
  have h4: "throws strict_stringify (Json ''circular'')" by code_simp
  have h5: "\<not> list_ex invokes_callback [Status 201 :: string handler_call]" by code_simp
  have s1: "str_statusCode (str_calls strict_stringify [Status 201]) = 201"
    "str_statusMessage (str_calls strict_stringify [Status 201]) = ''OK''"
    "str_headers (str_calls strict_stringify [Status 201]) = []"
    "events (str_calls strict_stringify [Status 201]) = []"
    by code_simp+
  note U = streaming_callbacks_shape[of strict_stringify "[Status 201, Json ''circular'']"]
  from U[THEN conjunct2, THEN conjunct2, THEN conjunct2, THEN conjunct2, THEN conjunct2,
         rule_format, of "[Status 201]" "''circular''"] h4 h5
  have e3: "events (str_calls strict_stringify [Status 201, Json ''circular''])
       = [OnStart 201 ''OK'' [(''Content-Type'', ''application/json; charset=utf-8'')]]"
    by (simp add: s1)
  from h1 h2 h3 e1 e2 ok h4 e3 show ?thesis by simp
qed

text \<open>
  Claim C9 as stated fails: a \<open>write\<close> after \<open>end()\<close> invokes \<open>onChunk\<close> after
  \<open>onEnd\<close>; a handler that only writes never invokes \<open>onEnd\<close>; one that only sets
  the status invokes no callback at all; and \<open>json\<close> of a value on which
  \<open>JSON.stringify\<close> throws invokes \<open>onStart\<close> and never \<open>onEnd\<close>.
\<close>

theorem streaming_callbacks_counterexample:
  "events (str_calls text_stringify [End None, Write ''late''])
     = [OnStart 200 ''OK'' [], OnEnd, OnChunk (Some ''late'')]
   \<and> \<not> callbacks_in_order (events (str_calls text_stringify [End None, Write ''late'']))
   \<and> events (str_calls text_stringify [Write ''a'']) = [OnStart 200 ''OK'' [], OnChunk (Some ''a'')]
   \<and> \<not> callbacks_in_order (events (str_calls text_stringify [Write ''a'']))
   \<and> events (str_calls text_stringify [Status 204]) = []
   \<and> \<not> callbacks_in_order (events (str_calls text_stringify [Status 204]))
   \<and> events (str_calls strict_stringify [Json ''circular''])
     = [OnStart 200 ''OK'' [(''Content-Type'', ''application/json; charset=utf-8'')]]
   \<and> \<not> callbacks_in_order (events (str_calls strict_stringify [Json ''circular'']))"
  by code_simp

section \<open>Properties of the route handlers\<close>

lemma of_char_bound: "(of_char c :: nat) < 256"
  by (metis of_char_mod_256 mod_less_divisor zero_less_numeral)

lemma upper_char_idem: "upper_char (upper_char c) = upper_char c"
proof (cases "97 \<le> (of_char c :: nat) \<and> (of_char c :: nat) \<le> 122")
  case True
  have "(of_char c :: nat) - 32 < 256"
    using of_char_bound[of c] by linarith
  then have "(of_char c - 32 :: nat) mod 256 = of_char c - 32"
    by (rule mod_less)
  with True show ?thesis by (auto simp: upper_char_def)
next
  case False
  then show ?thesis by (auto simp: upper_char_def)
qed

lemma upper_lower_char: "upper_char (lower_char c) = upper_char c"
proof (cases "65 \<le> (of_char c :: nat) \<and> (of_char c :: nat) \<le> 90")
  case True
  then have "(of_char c :: nat) + 32 < 256" by linarith
  then have "(of_char c + 32 :: nat) mod 256 = of_char c + 32"
    by (rule mod_less)
  with True show ?thesis by (auto simp: upper_char_def lower_char_def)
next
  case False
  then show ?thesis by (auto simp: lower_char_def)
qed

lemma toUpperCase_idem: "toUpperCase (toUpperCase m) = toUpperCase m"
  by (simp add: toUpperCase_def upper_char_idem)

lemma toUpperCase_toLowerCase: "toUpperCase (toLowerCase m) = toUpperCase m"
  by (simp add: toUpperCase_def toLowerCase_def upper_lower_char)

lemma find_method_handler_case:
  "toUpperCase m' = toUpperCase m \<Longrightarrow> find_method_handler exports m' = find_method_handler exports m"
  by (simp add: find_method_handler_def)

lemma upper_char_not_lower: "\<not> (97 \<le> (of_char (upper_char c) :: nat) \<and> (of_char (upper_char c) :: nat) \<le> 122)"
proof (cases "97 \<le> (of_char c :: nat) \<and> (of_char c :: nat) \<le> 122")
  case True
  have "(of_char c :: nat) - 32 < 256"
    using of_char_bound[of c] by linarith
  then have "(of_char c - 32 :: nat) mod 256 = of_char c - 32"
    by (rule mod_less)
  with True show ?thesis by (auto simp: upper_char_def)
next
  case False
  then show ?thesis by (auto simp: upper_char_def)
qed

lemma lower_char_not_upper: "\<not> (65 \<le> (of_char (lower_char c) :: nat) \<and> (of_char (lower_char c) :: nat) \<le> 90)"
proof (cases "65 \<le> (of_char c :: nat) \<and> (of_char c :: nat) \<le> 90")
  case True
  then have "(of_char c :: nat) + 32 < 256" by linarith
  then have "(of_char c + 32 :: nat) mod 256 = of_char c + 32"
    by (rule mod_less)
  with True show ?thesis by (auto simp: lower_char_def)
next
  case False
  then show ?thesis by (auto simp: lower_char_def)
qed

lemma toUpperCase_no_lower:
  assumes "c \<in> set s" "97 \<le> (of_char c :: nat)" "(of_char c :: nat) \<le> 122"
  shows "toUpperCase m \<noteq> s"
proof
  assume "toUpperCase m = s"
  with assms(1) obtain d where "c = upper_char d" by (auto simp: toUpperCase_def)
  with upper_char_not_lower[of d] assms(2,3) show False by simp
qed

lemma toLowerCase_no_upper:
  assumes "c \<in> set s" "65 \<le> (of_char c :: nat)" "(of_char c :: nat) \<le> 90"
  shows "toLowerCase m \<noteq> s"
proof
  assume "toLowerCase m = s"
  with assms(1) obtain d where "c = lower_char d" by (auto simp: toLowerCase_def)
  with lower_char_not_upper[of d] assms(2,3) show False by simp
qed

text \<open>
  No property of \<open>Object.prototype\<close> has an upper-case name, and the only function
  among those with a lower-case name is \<open>constructor\<close>.
\<close>

lemma Object_prototype_upper: "Object_prototype (toUpperCase m) = None"
proof -
  have "toUpperCase m \<noteq> ''constructor''"
    by (rule toUpperCase_no_lower[of "CHR ''c''"]) simp_all
  moreover have "toUpperCase m \<noteq> ''__proto__''"
    by (rule toUpperCase_no_lower[of "CHR ''p''"]) simp_all
  moreover have "toUpperCase m \<noteq> ''hasOwnProperty''" "toUpperCase m \<noteq> ''isPrototypeOf''"
    "toUpperCase m \<noteq> ''propertyIsEnumerable''" "toUpperCase m \<noteq> ''toLocaleString''"
    "toUpperCase m \<noteq> ''toString''"
    "toUpperCase m \<noteq> ''__lookupGetter__''" "toUpperCase m \<noteq> ''__lookupSetter__''"
    by (rule toUpperCase_no_lower[of "CHR ''o''"]; simp)+
  moreover have "toUpperCase m \<noteq> ''valueOf''"
    "toUpperCase m \<noteq> ''__defineGetter__''" "toUpperCase m \<noteq> ''__defineSetter__''"
    by (rule toUpperCase_no_lower[of "CHR ''e''"]; simp)+
  ultimately show ?thesis by (simp add: Object_prototype_def)
qed

lemma Object_prototype_lower:
  assumes "toLowerCase u \<noteq> ''constructor''"
  shows "Object_prototype (toLowerCase u) \<noteq> Some (HandlerFunction h)"
proof -
  have "toLowerCase u \<noteq> ''hasOwnProperty''" "toLowerCase u \<noteq> ''isPrototypeOf''"
    by (rule toLowerCase_no_upper[of "CHR ''P''"]; simp)+
  moreover have "toLowerCase u \<noteq> ''propertyIsEnumerable''"
    by (rule toLowerCase_no_upper[of "CHR ''I''"]) simp_all
  moreover have "toLowerCase u \<noteq> ''toLocaleString''" "toLowerCase u \<noteq> ''toString''"
    "toLowerCase u \<noteq> ''__defineSetter__''" "toLowerCase u \<noteq> ''__lookupSetter__''"
    by (rule toLowerCase_no_upper[of "CHR ''S''"]; simp)+
  moreover have "toLowerCase u \<noteq> ''valueOf''"
    by (rule toLowerCase_no_upper[of "CHR ''O''"]) simp_all
  moreover have "toLowerCase u \<noteq> ''__defineGetter__''" "toLowerCase u \<noteq> ''__lookupGetter__''"
    by (rule toLowerCase_no_upper[of "CHR ''G''"]; simp)+
  ultimately show ?thesis using assms by (simp add: Object_prototype_def)
qed

text \<open>
  Where \<open>handleAppRouteHandler\<close> does answer 405: the route file loads, its exports are
  an object that has no function of its own under the upper-case method name nor under the
  lower-case one, and the lower-case method name is not \<open>constructor\<close>.
\<close>

lemma handleAppRouteHandler_no_function:
  assumes rd: "rt_readFileSync rt routeFile = Inr source"
    and tr: "rt_transformApiHandler rt source routeFile = Inr transformed"
    and run: "rt_run_module rt transformed = Inr (ExportsObject own)"
    and up: "\<forall>h. map_of own (toUpperCase httpMethod) \<noteq> Some (HandlerFunction h)"
    and low: "\<forall>h. map_of own (toLowerCase (toUpperCase httpMethod)) \<noteq> Some (HandlerFunction h)"
    and nc: "toLowerCase (toUpperCase httpMethod) \<noteq> ''constructor''"
  shows "handleAppRouteHandler rt httpMethod pathname hdrs reqBody routeFile search
           = method_not_allowed (rt_stringify_string rt) httpMethod"
proof -
  let ?U = "toUpperCase httpMethod"
  let ?L = "toLowerCase ?U"
  have gu: "\<exists>v. get_property (ExportsObject own) ?U = Inr v \<and> (\<forall>h. v \<noteq> Some (HandlerFunction h))"
    using up by (auto simp: get_property_def Object_prototype_upper split: option.splits)
  have gl: "\<exists>v. get_property (ExportsObject own) ?L = Inr v \<and> (\<forall>h. v \<noteq> Some (HandlerFunction h))"
    using low Object_prototype_lower[OF nc]
    by (auto simp: get_property_def split: option.splits)
  from gu gl have "\<exists>v. find_method_handler (ExportsObject own) httpMethod = Inr v
                       \<and> (\<forall>h. v \<noteq> Some (HandlerFunction h))"
    by (auto simp: find_method_handler_def Let_def)
  then obtain v where v: "find_method_handler (ExportsObject own) httpMethod = Inr v"
    and nf: "\<forall>h. v \<noteq> Some (HandlerFunction h)" by blast
  show ?thesis
  proof (cases v)
    case None
    with v rd tr run show ?thesis by (simp add: handleAppRouteHandler_def Let_def)
  next
    case (Some e)
    with nf v rd tr run show ?thesis
      by (cases e) (simp_all add: handleAppRouteHandler_def Let_def)
  qed
qed

text \<open>
  Claim C7 fails on the code. The route module exports \<open>GET\<close> and nothing else. A
  \<open>POST\<close> request gets 405, in either case of the method name. For a request with the
  method \<open>constructor\<close> the module exports nothing under \<open>CONSTRUCTOR\<close> nor under
  \<open>constructor\<close>, and the lookup finds the function \<open>Object\<close> that the object of
  the exports inherits: \<open>handleAppRouteHandler\<close> calls it and answers 200.
\<close>

theorem route_handler_inherited_constructor:
  "rt_run_module get_only_runtime ''export async function GET() { return new Response() }''
     = Inr (ExportsObject [(''GET'', HandlerFunction (Declared ()))])
   \<and> map_of [(''GET'', HandlerFunction (Declared ()))] (toUpperCase ''constructor'') = None
   \<and> map_of [(''GET'', HandlerFunction (Declared ()))] (toLowerCase (toUpperCase ''constructor'')) = None
   \<and> find_method_handler get_only_exports ''constructor'' = Inr (Some (HandlerFunction (Builtin ''Object'')))
   \<and> handleAppRouteHandler get_only_runtime ''constructor'' ''/api/items'' [] None
        ''/app/api/items/route.ts'' []
       = \<lparr> statusCode = 200, statusMessage = ''OK'',
           headers = [(''Content-Type'', ''application/json; charset=utf-8'')], body = ''{}'' \<rparr>
   \<and> statusCode (handleAppRouteHandler get_only_runtime ''CONSTRUCTOR'' ''/api/items'' [] None
        ''/app/api/items/route.ts'' []) = 200
   \<and> statusCode (handleAppRouteHandler get_only_runtime ''POST'' ''/api/items'' [] (Some ''{}'')
        ''/app/api/items/route.ts'' []) = 405
   \<and> statusCode (handleAppRouteHandler get_only_runtime ''post'' ''/api/items'' [] (Some ''{}'')
        ''/app/api/items/route.ts'' []) = 405
   \<and> statusCode (handleAppRouteHandler get_only_runtime ''get'' ''/api/items'' [] None
        ''/app/api/items/route.ts'' []) = 200"
  by code_simp

section \<open>Properties of the API request path\<close>

lemma or_slash_no_qmark: "CHR ''?'' \<notin> set p \<Longrightarrow> CHR ''?'' \<notin> set (or_slash p)"
  by (simp add: or_slash_def)

lemma drop_no_qmark: "CHR ''?'' \<notin> set p \<Longrightarrow> CHR ''?'' \<notin> set (drop n p)"
  by (auto dest: in_set_dropD)

lemma strip_virtual_prefix_no_qmark:
  "CHR ''?'' \<notin> set p \<Longrightarrow> CHR ''?'' \<notin> set (strip_virtual_prefix p)"
  by (simp add: strip_virtual_prefix_def or_slash_no_qmark drop_no_qmark split: option.splits)

lemma strip_assetPrefix_no_qmark:
  "CHR ''?'' \<notin> set p \<Longrightarrow> CHR ''?'' \<notin> set (strip_assetPrefix cfg p)"
  by (simp add: strip_assetPrefix_def Let_def or_slash_no_qmark drop_no_qmark)

lemma strip_basePath_no_qmark:
  "CHR ''?'' \<notin> set p \<Longrightarrow> CHR ''?'' \<notin> set (strip_basePath cfg p)"
  by (simp add: strip_basePath_def Let_def or_slash_no_qmark drop_no_qmark)

lemma request_pathname_no_qmark:
  "url_parser_ok pf \<Longrightarrow> CHR ''?'' \<notin> set (request_pathname pf cfg url)"
  by (simp add: request_pathname_def url_parser_ok_def strip_basePath_no_qmark
      strip_assetPrefix_no_qmark strip_virtual_prefix_no_qmark)

lemma createMockRequest_query:
  assumes "createMockRequest pf httpMethod pathname hdrs reqBody = Inr req"
  shows "query req = Object_fromEntries (url_searchParams (new_URL pf pathname))"
  using assms
  by (auto simp: createMockRequest_def Let_def split: sum.splits option.splits)

lemma createMockRequest_no_query:
  assumes "url_parser_ok pf" and "CHR ''?'' \<notin> set pathname"
    and "createMockRequest pf httpMethod pathname hdrs reqBody = Inr req"
  shows "query req = []"
  using assms createMockRequest_query[OF assms(3)]
  by (simp add: url_parser_ok_def Object_fromEntries_def)

text \<open>
  Claim C10. For every URL, method, headers and body: when a Pages-router API request
  gets its mock request, from \<open>handleRequest\<close> or from \<open>handleStreamingRequest\<close>, the
  \<open>query\<close> of the mock request is empty. The dispatcher passes the pathname of the
  parsed URL, which holds no question mark, and \<open>createMockRequest\<close> parses that
  pathname again to get the query.
\<close>

theorem api_request_query_empty:
  assumes "url_parser_ok pf"
  shows "(\<forall>req. api_mock_request pf cfg httpMethod url hdrs reqBody = Some (Inr req)
            \<longrightarrow> query req = [])
       \<and> (\<forall>req. streaming_mock_request pf httpMethod url hdrs reqBody = Some (Inr req)
            \<longrightarrow> query req = [])"
proof (intro conjI allI impI)
  fix req
  assume "api_mock_request pf cfg httpMethod url hdrs reqBody = Some (Inr req)"
  then have "createMockRequest pf httpMethod (request_pathname pf cfg url) hdrs reqBody = Inr req"
    by (simp add: api_mock_request_def Let_def split: if_splits)
  with assms request_pathname_no_qmark[OF assms] show "query req = []"
    by (rule createMockRequest_no_query)
next
  fix req
  assume "streaming_mock_request pf httpMethod url hdrs reqBody = Some (Inr req)"
  then have "createMockRequest pf httpMethod (url_pathname (new_URL pf url)) hdrs reqBody = Inr req"
    by (simp add: streaming_mock_request_def Let_def split: if_splits)
  moreover have "CHR ''?'' \<notin> set (url_pathname (new_URL pf url))"
    using assms by (simp add: url_parser_ok_def)
  ultimately show "query req = []"
    using assms createMockRequest_no_query by blast
qed

lemma takeWhile_no_qmark: "CHR ''?'' \<notin> set (takeWhile (\<lambda>c. c \<noteq> CHR ''?'') xs)"
  by (auto dest: set_takeWhileD)

lemma no_qmark_dropWhile:
  "CHR ''?'' \<notin> set xs \<Longrightarrow> dropWhile (\<lambda>c. c \<noteq> CHR ''?'') xs = []"
  by (induction xs) auto

lemma simple_platform_ok: "url_parser_ok simple_platform"
proof -
  have a: "CHR ''?'' \<notin> set (url_pathname (simple_URL u))" for u
    by (simp add: simple_URL_def Let_def or_slash_no_qmark takeWhile_no_qmark)
  have b: "url_searchParams (simple_URL u) = []" if "CHR ''?'' \<notin> set u" for u
  proof -
    from that have "CHR ''?'' \<notin> set (takeWhile (\<lambda>c. c \<noteq> CHR ''#'') u)"
      by (auto dest: set_takeWhileD)
    then show ?thesis
      by (simp add: simple_URL_def Let_def no_qmark_dropWhile query_pairs_def)
  qed
  from a b show ?thesis by (simp add: url_parser_ok_def simple_platform_def)
qed

theorem api_request_query_empty_witness:
  "url_parser_ok simple_platform
   \<and> url_searchParams (new_URL simple_platform ''/api/hello?name=world'') = [(''name'', ''world'')]
   \<and> api_mock_request simple_platform \<lparr>assetPrefix = [], basePath = []\<rparr> ''GET''
        ''/api/hello?name=world'' [] None
      = Some (Inr \<lparr> req_method = ''GET'', req_url = ''/api/hello'', req_headers = [],
                     query = [], req_body = None, cookies = [] \<rparr>)
   \<and> api_mock_request simple_platform \<lparr>assetPrefix = [], basePath = ''/docs''\<rparr> ''GET''
        ''/__virtual__/3001/docs/api/hello?name=world'' [(''cookie'', ''a=1; b=2'')] None
      = Some (Inr \<lparr> req_method = ''GET'', req_url = ''/api/hello'',
                     req_headers = [(''cookie'', ''a=1; b=2'')],
                     query = [], req_body = None, cookies = [(''a'', ''1''), (''b'', ''2'')] \<rparr>)"
proof -
  have p: "url_searchParams (new_URL simple_platform ''/api/hello?name=world'') = [(''name'', ''world'')]"
    by code_simp
  have r1: "api_mock_request simple_platform \<lparr>assetPrefix = [], basePath = []\<rparr> ''GET''
        ''/api/hello?name=world'' [] None
      = Some (Inr \<lparr> req_method = ''GET'', req_url = ''/api/hello'', req_headers = [],
                     query = [], req_body = None, cookies = [] \<rparr>)"
    by code_simp
  have r2: "api_mock_request simple_platform \<lparr>assetPrefix = [], basePath = ''/docs''\<rparr> ''GET''
        ''/__virtual__/3001/docs/api/hello?name=world'' [(''cookie'', ''a=1; b=2'')] None
      = Some (Inr \<lparr> req_method = ''GET'', req_url = ''/api/hello'',
                     req_headers = [(''cookie'', ''a=1; b=2'')],
                     query = [], req_body = None, cookies = [(''a'', ''1''), (''b'', ''2'')] \<rparr>)"
    by code_simp
  from api_request_query_empty[OF simple_platform_ok, of "\<lparr>assetPrefix = [], basePath = []\<rparr>"
      "''GET''" "''/api/hello?name=world''" "[]" None] r1
  have "query \<lparr> req_method = ''GET'', req_url = ''/api/hello'', req_headers = [],
                query = [], req_body = (None :: string option), cookies = [] \<rparr> = []"
    by blast
  with simple_platform_ok p r1 r2 show ?thesis by blast
qed

section \<open>Properties of the App router\<close>

lemma route_at_fields [simp]:
  "page (route_at fs a d pg ls ps) = pg"
  "layouts (route_at fs a d pg ls ps) = ls"
  "params (route_at fs a d pg ls ps) = ps"
  by (simp_all add: route_at_def)

lemma collectLayout_cases:
  obtains (same) "collectLayout fs d ls = ls"
  | (added) ext where "ext \<in> set page_extensions" "d @ ''/layout'' @ ext \<notin> set ls"
      "exists fs (d @ ''/layout'' @ ext)"
      "collectLayout fs d ls = ls @ [d @ ''/layout'' @ ext]"
proof (cases "first_some (\<lambda>ext.
             let layoutPath = d @ ''/layout'' @ ext in
             if exists fs layoutPath \<and> layoutPath \<notin> set ls
             then Some (ls @ [layoutPath]) else None) page_extensions")
  case None
  then have "collectLayout fs d ls = ls" by (simp add: collectLayout_def)
  then show ?thesis by (rule same)
next
  case (Some c)
  from first_some_SomeD[OF Some] obtain ext where "ext \<in> set page_extensions"
    "exists fs (d @ ''/layout'' @ ext)" "d @ ''/layout'' @ ext \<notin> set ls"
    "c = ls @ [d @ ''/layout'' @ ext]"
    by (auto simp: Let_def split: if_splits)
  moreover from Some have "collectLayout fs d ls = c" by (simp add: collectLayout_def)
  ultimately show ?thesis using added by blast
qed

lemma findPage_SomeD:
  "findPage fs d = Some pg \<Longrightarrow> \<exists>ext\<in>set page_extensions. pg = d @ ''/page'' @ ext"
  unfolding findPage_def by (drule find_with_ext_SomeD) auto

lemma page_in_group_SomeD:
  assumes "page_in_group fs a d ls ps g = Some r"
  shows "\<exists>pg. findPage fs (d @ ''/'' @ g) = Some pg
           \<and> r = route_at fs a (d @ ''/'' @ g) pg (collectLayout fs (d @ ''/'' @ g) ls) ps"
  using assms by (auto simp: page_in_group_def Let_def split: option.splits)

lemma app_tryPath_Nil_cases:
  assumes "resolveAppDynamicRoute_tryPath fs a d [] ls ps = Some r"
  obtains (direct) pg where "findPage fs d = Some pg"
      "r = route_at fs a d pg (collectLayout fs d ls) ps"
  | (group) g pg where "g \<in> set (getRouteGroups fs d)" "findPage fs d = None"
      "findPage fs (d @ ''/'' @ g) = Some pg"
      "r = route_at fs a (d @ ''/'' @ g) pg
             (collectLayout fs (d @ ''/'' @ g) (collectLayout fs d ls)) ps"
proof (cases "findPage fs d")
  case (Some pg)
  with assms have "r = route_at fs a d pg (collectLayout fs d ls) ps"
    by (simp add: resolveAppDynamicRoute_tryPath.simps(1) Let_def)
  with Some show ?thesis by (rule direct)
next
  case None
  with assms have "first_some (page_in_group fs a d (collectLayout fs d ls) ps)
      (getRouteGroups fs d) = Some r"
    by (simp add: resolveAppDynamicRoute_tryPath.simps(1) Let_def)
  from first_some_SomeD[OF this] obtain g where g: "g \<in> set (getRouteGroups fs d)"
    and "page_in_group fs a d (collectLayout fs d ls) ps g = Some r" by blast
  from page_in_group_SomeD[OF this(2)] g None show ?thesis using group by blast
qed

lemma try_dynamic_entry_SomeD:
  assumes "try_dynamic_entry fs base c rest ls ps try_rest try_none entry = Some r"
  shows "\<exists>ps'. try_none (base @ ''/'' @ entry) ls ps' = Some r
              \<or> try_rest (base @ ''/'' @ entry) ls ps' = Some r"
  using assms
  by (auto simp: try_dynamic_entry_def Let_def split: if_splits)

lemma try_in_group_SomeD:
  assumes "try_in_group fs d c rest ls ps try_rest try_none g = Some r"
  shows "\<exists>x ps'. (x = c \<or> (\<exists>es. readdirSync fs (d @ ''/'' @ g) = Some es \<and> x \<in> set es))
              \<and> (try_none ((d @ ''/'' @ g) @ ''/'' @ x) (collectLayout fs (d @ ''/'' @ g) ls) ps' = Some r
                 \<or> try_rest ((d @ ''/'' @ g) @ ''/'' @ x) (collectLayout fs (d @ ''/'' @ g) ls) ps' = Some r)"
proof (cases "isDirectory fs ((d @ ''/'' @ g) @ ''/'' @ c)
     \<and> try_rest ((d @ ''/'' @ g) @ ''/'' @ c) (collectLayout fs (d @ ''/'' @ g) ls) ps \<noteq> None")
  case True
  with assms have "try_rest ((d @ ''/'' @ g) @ ''/'' @ c) (collectLayout fs (d @ ''/'' @ g) ls) ps = Some r"
    by (auto simp: try_in_group_def Let_def)
  then show ?thesis by blast
next
  case False
  with assms obtain es where es: "readdirSync fs (d @ ''/'' @ g) = Some es"
    and "first_some (try_dynamic_entry fs (d @ ''/'' @ g) c rest
       (collectLayout fs (d @ ''/'' @ g) ls) ps try_rest try_none) es = Some r"
    by (auto simp: try_in_group_def Let_def split: option.splits if_splits)
  from first_some_SomeD[OF this(2)] obtain e where e: "e \<in> set es" and
    "try_dynamic_entry fs (d @ ''/'' @ g) c rest
       (collectLayout fs (d @ ''/'' @ g) ls) ps try_rest try_none e = Some r" by blast
  from try_dynamic_entry_SomeD[OF this(2)] es e show ?thesis by blast
qed

lemma app_tryPath_Cons_cases:
  assumes "resolveAppDynamicRoute_tryPath fs a d (c # rest) ls ps = Some r"
  obtains (direct) x segs ps' where "segs = rest \<or> segs = []"
      "resolveAppDynamicRoute_tryPath fs a (d @ ''/'' @ x) segs (collectLayout fs d ls) ps' = Some r"
      "x = c \<or> (\<exists>es. readdirSync fs d = Some es \<and> x \<in> set es)"
  | (group) g x segs ps' where "segs = rest \<or> segs = []" "g \<in> set (getRouteGroups fs d)"
      "resolveAppDynamicRoute_tryPath fs a ((d @ ''/'' @ g) @ ''/'' @ x) segs
         (collectLayout fs (d @ ''/'' @ g) (collectLayout fs d ls)) ps' = Some r"
      "x = c \<or> (\<exists>es. readdirSync fs (d @ ''/'' @ g) = Some es \<and> x \<in> set es)"
proof -
  let ?L1 = "collectLayout fs d ls"
  let ?K1 = "\<lambda>d l p. resolveAppDynamicRoute_tryPath fs a d rest l p"
  let ?K0 = "\<lambda>d l p. resolveAppDynamicRoute_tryPath fs a d [] l p"
  from assms consider
      (exact) "resolveAppDynamicRoute_tryPath fs a (d @ ''/'' @ c) rest ?L1 ps = Some r"
    | (grp) "first_some (try_in_group fs d c rest ?L1 ps ?K1 ?K0) (getRouteGroups fs d) = Some r"
    | (dyn) es where "readdirSync fs d = Some es"
        "first_some (try_dynamic_entry fs d c rest ?L1 ps ?K1 ?K0) es = Some r"
    by (simp only: resolveAppDynamicRoute_tryPath.simps(2) Let_def)
       (auto split: option.splits if_splits)
  then show ?thesis
  proof cases
    case exact
    then show ?thesis using direct by blast
  next
    case grp
    from first_some_SomeD[OF grp] obtain g where g: "g \<in> set (getRouteGroups fs d)"
      and "try_in_group fs d c rest ?L1 ps ?K1 ?K0 g = Some r" by blast
    from try_in_group_SomeD[OF this(2)] g show ?thesis using group by blast
  next
    case dyn
    from first_some_SomeD[OF dyn(2)] obtain e where e: "e \<in> set es" and
      "try_dynamic_entry fs d c rest ?L1 ps ?K1 ?K0 e = Some r" by blast
    from try_dynamic_entry_SomeD[OF this(2)] dyn(1) e show ?thesis using direct by blast
  qed
qed


lemma startsWith_iff: "startsWith s p \<longleftrightarrow> (\<exists>t. s = p @ t)"
  unfolding startsWith_def
  by (metis append_eq_conv_conj append_take_drop_id)

lemma is_ancestor_refl [simp]: "is_ancestor d d"
  by (simp add: is_ancestor_def)

lemma is_ancestor_child: "is_ancestor d (d @ ''/'' @ x)"
  by (simp add: is_ancestor_def startsWith_iff)

lemma is_ancestor_child_cons [simp]: "is_ancestor d (d @ CHR ''/'' # x)"
  using is_ancestor_child[of d x] by simp

lemma is_ancestor_trans:
  assumes "is_ancestor d1 d2" "is_ancestor d2 d3"
  shows "is_ancestor d1 d3"
proof (cases "d1 = d2 \<or> d2 = d3")
  case True
  with assms show ?thesis by auto
next
  case False
  with assms have "startsWith d2 (d1 @ ''/'')" "startsWith d3 (d2 @ ''/'')"
    by (auto simp: is_ancestor_def)
  then obtain t u where "d2 = (d1 @ ''/'') @ t" "d3 = (d2 @ ''/'') @ u"
    unfolding startsWith_iff by blast
  then have "d3 = (d1 @ ''/'') @ (t @ ''/'' @ u)" by simp
  then show ?thesis unfolding is_ancestor_def startsWith_iff by blast
qed

lemma parent_dir_file:
  assumes "CHR ''/'' \<notin> set name" "name \<noteq> []"
  shows "parent_dir (d @ ''/'' @ name) = d"
proof -
  have "takeWhile (\<lambda>c. c \<noteq> CHR ''/'') (rev name @ (CHR ''/'' # rev d))
          = rev name @ takeWhile (\<lambda>c. c \<noteq> CHR ''/'') (CHR ''/'' # rev d)"
    by (rule takeWhile_append2) (use assms(1) in auto)
  then have "takeWhile (\<lambda>c. c \<noteq> CHR ''/'') (rev (d @ ''/'' @ name)) = rev name"
    by simp
  with assms(2) show ?thesis by (simp add: parent_dir_def Let_def)
qed

lemma parent_dir_layout:
  assumes "ext \<in> set page_extensions"
  shows "parent_dir (d @ ''/layout'' @ ext) = d"
proof -
  have "CHR ''/'' \<notin> set (''layout'' @ ext)" "''layout'' @ ext \<noteq> []"
    using assms by (auto simp: page_extensions_def)
  from parent_dir_file[OF this] show ?thesis by simp
qed

lemma parent_dir_page:
  assumes "ext \<in> set page_extensions"
  shows "parent_dir (d @ ''/page'' @ ext) = d"
proof -
  have "CHR ''/'' \<notin> set (''page'' @ ext)" "''page'' @ ext \<noteq> []"
    using assms by (auto simp: page_extensions_def)
  from parent_dir_file[OF this] show ?thesis by simp
qed

lemma findPage_parent: "findPage fs d = Some pg \<Longrightarrow> parent_dir pg = d"
proof -
  assume "findPage fs d = Some pg"
  from findPage_SomeD[OF this] obtain ext where e: "ext \<in> set page_extensions"
    and pg: "pg = d @ ''/page'' @ ext" by blast
  show ?thesis unfolding pg using e by (rule parent_dir_page)
qed

lemma is_layout_file_layout:
  assumes "ext \<in> set page_extensions"
  shows "is_layout_file (d @ ''/layout'' @ ext)"
proof -
  have "d @ ''/layout'' @ ext = parent_dir (d @ ''/layout'' @ ext) @ ''/layout'' @ ext"
    by (simp only: parent_dir_layout[OF assms])
  then show ?thesis unfolding is_layout_file_def list_ex_iff using assms by blast
qed

lemma layouts_inv_descend:
  "layouts_inv a d ls \<Longrightarrow> is_ancestor d d' \<Longrightarrow> layouts_inv a d' ls"
  by (auto simp: layouts_inv_def intro: is_ancestor_trans)

lemma layouts_inv_collect:
  assumes "layouts_inv a d ls" "is_ancestor a d"
  shows "layouts_inv a d (collectLayout fs d ls)"
proof (cases rule: collectLayout_cases[of fs d ls])
  case same
  with assms show ?thesis by simp
next
  case (added ext)
  define x where "x = d @ ''/layout'' @ ext"
  have pd: "parent_dir x = d" unfolding x_def using added(1) by (rule parent_dir_layout)
  have lf: "is_layout_file x" unfolding x_def using added(1) by (rule is_layout_file_layout)
  have nin: "x \<notin> set ls" unfolding x_def by (rule added(2))
  have eq: "collectLayout fs d ls = ls @ [x]" unfolding x_def by (rule added(4))
  show ?thesis
    unfolding eq using assms pd lf nin
    by (auto simp: layouts_inv_def root_to_leaf_def sorted_wrt_append)
qed

lemma collectLayout_extends: "\<exists>ys. collectLayout fs d ls = ls @ ys"
  by (cases rule: collectLayout_cases[of fs d ls]) auto

lemma app_tryPath_Nil_layouts:
  assumes "resolveAppDynamicRoute_tryPath fs a d [] ls ps = Some r"
    and "layouts_inv a d ls" and "is_ancestor a d"
  shows "layouts_inv a (parent_dir (page r)) (layouts r)
       \<and> (\<exists>ys. layouts r = ls @ ys) \<and> is_ancestor d (parent_dir (page r))"
  using assms(1)
proof (cases rule: app_tryPath_Nil_cases)
  case (direct pg)
  from findPage_parent[OF direct(1)] have pd: "parent_dir pg = d" .
  show ?thesis
    using direct(2) pd layouts_inv_collect[OF assms(2,3), of fs] collectLayout_extends[of fs d ls]
    by simp
next
  case (group g pg)
  let ?d = "d @ ''/'' @ g"
  from findPage_parent[OF group(3)] have pd: "parent_dir pg = ?d" .
  have anc: "is_ancestor a ?d" using assms(3) is_ancestor_child is_ancestor_trans by blast
  have "layouts_inv a ?d (collectLayout fs d ls)"
    using layouts_inv_collect[OF assms(2,3), of fs] layouts_inv_descend is_ancestor_child by blast
  from layouts_inv_collect[OF this anc, of fs]
  have "layouts_inv a ?d (collectLayout fs ?d (collectLayout fs d ls))" .
  moreover have "\<exists>ys. collectLayout fs ?d (collectLayout fs d ls) = ls @ ys"
    using collectLayout_extends[of fs d ls] collectLayout_extends[of fs ?d "collectLayout fs d ls"]
    by (metis append.assoc)
  ultimately show ?thesis using group(4) pd by simp
qed

lemma app_tryPath_layouts:
  assumes "resolveAppDynamicRoute_tryPath fs a d segs ls ps = Some r"
    and "layouts_inv a d ls" and "is_ancestor a d"
  shows "layouts_inv a (parent_dir (page r)) (layouts r)
       \<and> (\<exists>ys. layouts r = ls @ ys) \<and> is_ancestor d (parent_dir (page r))"
  using assms
proof (induction segs arbitrary: d ls ps)
  case Nil
  then show ?case by (rule app_tryPath_Nil_layouts)
next
  case (Cons c rest)
  have sub: "layouts_inv a (parent_dir (page r)) (layouts r)
       \<and> (\<exists>ys. layouts r = ls' @ ys) \<and> is_ancestor d' (parent_dir (page r))"
    if "segs = rest \<or> segs = []"
      and "resolveAppDynamicRoute_tryPath fs a d' segs ls' ps' = Some r"
      and "layouts_inv a d' ls'" and "is_ancestor a d'" for segs d' ls' ps'
    using that Cons.IH[of d' ls' ps'] app_tryPath_Nil_layouts[of fs a d' ls' ps' r] by blast
  from Cons.prems(1) show ?case
  proof (cases rule: app_tryPath_Cons_cases)
    case (direct x segs ps')
    let ?d = "d @ ''/'' @ x"
    have anc: "is_ancestor a ?d" using Cons.prems(3) is_ancestor_child is_ancestor_trans by blast
    have inv: "layouts_inv a ?d (collectLayout fs d ls)"
      using layouts_inv_collect[OF Cons.prems(2,3), of fs] layouts_inv_descend is_ancestor_child
      by blast
    from sub[OF direct(1,2) inv anc] collectLayout_extends[of fs d ls]
    show ?thesis
      using is_ancestor_trans[OF is_ancestor_child[of d x]] by (metis append.assoc)
  next
    case (group g x segs ps')
    let ?g = "d @ ''/'' @ g"
    let ?d = "?g @ ''/'' @ x"
    have ancg: "is_ancestor a ?g" using Cons.prems(3) is_ancestor_child is_ancestor_trans by blast
    have anc: "is_ancestor a ?d" using ancg is_ancestor_child is_ancestor_trans by blast
    have "layouts_inv a ?g (collectLayout fs d ls)"
      using layouts_inv_collect[OF Cons.prems(2,3), of fs] layouts_inv_descend is_ancestor_child
      by blast
    from layouts_inv_collect[OF this ancg, of fs]
    have inv: "layouts_inv a ?d (collectLayout fs ?g (collectLayout fs d ls))"
      using layouts_inv_descend is_ancestor_child by blast
    have dd: "is_ancestor d ?d"
      using is_ancestor_trans[OF is_ancestor_child[of d g] is_ancestor_child[of ?g x]] .
    from sub[OF group(1,3) inv anc]
      collectLayout_extends[of fs d ls] collectLayout_extends[of fs ?g "collectLayout fs d ls"]
    show ?thesis
      using is_ancestor_trans[OF dd] by (metis append.assoc)
  qed
qed


lemma root_layouts_inv:
  "layouts_inv a a (case find_with_ext fs page_extensions (\<lambda>ext. a @ ''/layout'' @ ext) of
                      Some rootLayout \<Rightarrow> [rootLayout] | None \<Rightarrow> [])"
proof (cases "find_with_ext fs page_extensions (\<lambda>ext. a @ ''/layout'' @ ext)")
  case None
  then show ?thesis by (simp add: layouts_inv_def root_to_leaf_def)
next
  case (Some rl)
  from find_with_ext_SomeD[OF Some] obtain ext where e: "ext \<in> set page_extensions"
    and rl: "rl = a @ ''/layout'' @ ext" by blast
  have "parent_dir rl = a" unfolding rl using e by (rule parent_dir_layout)
  moreover have "is_layout_file rl" unfolding rl using e by (rule is_layout_file_layout)
  ultimately show ?thesis using Some by (simp add: layouts_inv_def root_to_leaf_def)
qed

lemma is_ancestor_antisym:
  assumes "is_ancestor a b" "is_ancestor b a"
  shows "a = b"
proof (rule ccontr)
  assume "a \<noteq> b"
  with assms have "startsWith b (a @ ''/'')" "startsWith a (b @ ''/'')"
    by (auto simp: is_ancestor_def)
  then obtain t u where "b = (a @ ''/'') @ t" "a = (b @ ''/'') @ u"
    unfolding startsWith_iff by blast
  then have "length b > length a" "length a > length b"
    by (metis length_append length_append_singleton less_add_Suc1 add.commute append.assoc
        length_Cons list.size(3) less_Suc_eq trans_less_add1)+
  then show False by simp
qed

lemma is_ancestor_child_cases:
  assumes sf: "slash_free x" and anc: "is_ancestor d' (d @ ''/'' @ x)"
  shows "d' = d @ ''/'' @ x \<or> is_ancestor d' d"
proof (cases "d' = d @ ''/'' @ x")
  case True
  then show ?thesis by simp
next
  case False
  with anc obtain t where t: "d @ ''/'' @ x = (d' @ ''/'') @ t"
    unfolding is_ancestor_def startsWith_iff by blast
  then have "d @ (CHR ''/'' # x) = (d' @ [CHR ''/'']) @ t" by simp
  then consider (long) us where "d = (d' @ [CHR ''/'']) @ us"
    | (short) us where "d @ us = d' @ [CHR ''/'']" "CHR ''/'' # x = us @ t"
    unfolding append_eq_append_conv2 by blast
  then have "is_ancestor d' d"
  proof cases
    case long
    then show ?thesis by (simp add: is_ancestor_def startsWith_iff)
  next
    case short
    show ?thesis
    proof (cases us)
      case Nil
      with short(1) show ?thesis by (simp add: is_ancestor_def startsWith_iff)
    next
      case (Cons u us')
      with short(2) have u: "u = CHR ''/''" and x: "x = us' @ t" by simp_all
      show ?thesis
      proof (cases us' rule: rev_cases)
        case Nil
        with short(1) Cons u show ?thesis by simp
      next
        case (snoc ys y)
        with short(1) Cons have "y = CHR ''/''"
          by (metis append_assoc append_Cons last_snoc)
        with snoc x sf show ?thesis by (simp add: slash_free_def)
      qed
    qed
  qed
  then show ?thesis by simp
qed

lemma first_layout_collected:
  assumes "first_some (\<lambda>ext. if exists fs (d @ ''/layout'' @ ext) then Some (d @ ''/layout'' @ ext)
                               else None) exts = Some l"
  shows "l \<in> set ls
       \<or> first_some (\<lambda>ext.
             let layoutPath = d @ ''/layout'' @ ext in
             if exists fs layoutPath \<and> layoutPath \<notin> set ls
             then Some (ls @ [layoutPath]) else None) exts = Some (ls @ [l])"
  using assms by (induction exts) (auto simp: Let_def split: if_splits)

lemma collectLayout_has_first:
  assumes "find_with_ext fs page_extensions (\<lambda>ext. d @ ''/layout'' @ ext) = Some l"
  shows "l \<in> set (collectLayout fs d ls)"
proof -
  from assms have "first_some (\<lambda>ext. if exists fs (d @ ''/layout'' @ ext)
      then Some (d @ ''/layout'' @ ext) else None) page_extensions = Some l"
    unfolding find_with_ext_def .
  from first_layout_collected[OF this, of ls] show ?thesis
  proof
    assume "l \<in> set ls"
    then show ?thesis using collectLayout_extends[of fs d ls] by auto
  next
    assume "first_some (\<lambda>ext.
             let layoutPath = d @ ''/layout'' @ ext in
             if exists fs layoutPath \<and> layoutPath \<notin> set ls
             then Some (ls @ [layoutPath]) else None) page_extensions = Some (ls @ [l])"
    then show ?thesis by (simp add: collectLayout_def)
  qed
qed

lemma collectLayout_exists:
  assumes "\<forall>l\<in>set ls. exists fs l"
  shows "\<forall>l\<in>set (collectLayout fs d ls). exists fs l"
  by (cases rule: collectLayout_cases[of fs d ls]) (use assms in auto)

lemma cover_collect:
  assumes "layouts_cover_above fs a d ls"
  shows "layouts_cover fs a d (collectLayout fs d ls)"
proof -
  have ex: "\<forall>l\<in>set (collectLayout fs d ls). exists fs l"
    using assms collectLayout_exists[of ls fs d] by (simp add: layouts_cover_above_def)
  have "l \<in> set (collectLayout fs d ls)"
    if "is_ancestor a d'" "is_ancestor d' d"
      and f: "find_with_ext fs page_extensions (\<lambda>ext. d' @ ''/layout'' @ ext) = Some l" for d' l
  proof (cases "d' = d")
    case True
    with f show ?thesis using collectLayout_has_first by simp
  next
    case False
    with that assms have "l \<in> set ls" unfolding layouts_cover_above_def by blast
    then show ?thesis using collectLayout_extends[of fs d ls] by auto
  qed
  with ex show ?thesis unfolding layouts_cover_def by blast
qed

lemma cover_descend:
  assumes "layouts_cover fs a d ls" "slash_free x"
  shows "layouts_cover_above fs a (d @ ''/'' @ x) ls"
  using assms is_ancestor_child_cases[OF assms(2)]
  unfolding layouts_cover_def layouts_cover_above_def by blast

lemma names_okD:
  "vfs_names_ok fs \<Longrightarrow> readdirSync fs p = Some es \<Longrightarrow> x \<in> set es \<Longrightarrow> slash_free x"
  unfolding vfs_names_ok_def by (auto simp: list_all_iff split: option.splits dest!: spec[of _ p])

lemma getRouteGroups_entries:
  "g \<in> set (getRouteGroups fs d) \<Longrightarrow> \<exists>es. readdirSync fs d = Some es \<and> g \<in> set es"
  by (cases "readdirSync fs d") (auto simp: getRouteGroups_def)

lemma group_slash_free:
  "vfs_names_ok fs \<Longrightarrow> g \<in> set (getRouteGroups fs d) \<Longrightarrow> slash_free g"
  using getRouteGroups_entries names_okD by blast

lemma app_tryPath_Nil_cover:
  assumes "resolveAppDynamicRoute_tryPath fs a d [] ls ps = Some r"
    and "layouts_cover_above fs a d ls" and "vfs_names_ok fs"
  shows "layouts_cover fs a (parent_dir (page r)) (layouts r)"
  using assms(1)
proof (cases rule: app_tryPath_Nil_cases)
  case (direct pg)
  from findPage_parent[OF direct(1)] have pd: "parent_dir pg = d" .
  show ?thesis using direct(2) pd cover_collect[OF assms(2)] by simp
next
  case (group g pg)
  let ?d = "d @ ''/'' @ g"
  from findPage_parent[OF group(3)] have pd: "parent_dir pg = ?d" .
  have g: "slash_free g" using group_slash_free[OF assms(3) group(1)] .
  from cover_collect[OF cover_descend[OF cover_collect[OF assms(2)] g]]
  show ?thesis using group(4) pd by simp
qed

lemma app_tryPath_cover:
  assumes "resolveAppDynamicRoute_tryPath fs a d segs ls ps = Some r"
    and "layouts_cover_above fs a d ls" and "list_all slash_free segs" and "vfs_names_ok fs"
  shows "layouts_cover fs a (parent_dir (page r)) (layouts r)"
  using assms
proof (induction segs arbitrary: d ls ps)
  case Nil
  then show ?case using app_tryPath_Nil_cover by blast
next
  case (Cons c rest)
  have sub: "layouts_cover fs a (parent_dir (page r)) (layouts r)"
    if "segs = rest \<or> segs = []"
      and "resolveAppDynamicRoute_tryPath fs a d' segs ls' ps' = Some r"
      and "layouts_cover_above fs a d' ls'" for segs d' ls' ps'
    using that Cons.IH[of d' ls' ps'] Cons.prems(3,4)
      app_tryPath_Nil_cover[of fs a d' ls' ps' r] by auto
  have c: "slash_free c" using Cons.prems(3) by simp
  note ok = Cons.prems(4)
  from Cons.prems(1) show ?case
  proof (cases rule: app_tryPath_Cons_cases)
    case (direct x segs ps')
    have x: "slash_free x" using direct(3) c names_okD[OF ok] by blast
    from sub[OF direct(1,2) cover_descend[OF cover_collect[OF Cons.prems(2)] x]]
    show ?thesis .
  next
    case (group g x segs ps')
    have g: "slash_free g" using group_slash_free[OF ok group(2)] .
    have x: "slash_free x" using group(4) c names_okD[OF ok] by blast
    from sub[OF group(1,3)
        cover_descend[OF cover_collect[OF cover_descend[OF cover_collect[OF Cons.prems(2)] g]] x]]
    show ?thesis .
  qed
qed

lemma root_layouts_cover:
  "layouts_cover_above fs a a (case find_with_ext fs page_extensions (\<lambda>ext. a @ ''/layout'' @ ext) of
                      Some rootLayout \<Rightarrow> [rootLayout] | None \<Rightarrow> [])"
proof (cases "find_with_ext fs page_extensions (\<lambda>ext. a @ ''/layout'' @ ext)")
  case None
  then show ?thesis
    using is_ancestor_antisym unfolding layouts_cover_above_def by auto
next
  case (Some rl)
  from find_with_ext_SomeD[OF Some] have "exists fs rl" by blast
  with Some show ?thesis
    using is_ancestor_antisym unfolding layouts_cover_above_def by auto
qed

lemma split_str_no_sep: "\<forall>w\<in>set (split_str sep s). sep \<notin> set w"
  by (induction s) (auto split: list.splits)

lemma path_segments_slash_free: "list_all slash_free (path_segments pathname)"
  using split_str_no_sep[of "CHR ''/''" pathname]
  by (auto simp: path_segments_def slash_free_def list_all_iff)

lemma root_to_leaf_hd:
  assumes "root_to_leaf ls" "l \<in> set ls"
  shows "is_ancestor (parent_dir (hd ls)) (parent_dir l)"
  using assms by (cases ls) (auto simp: root_to_leaf_def)

lemma first_layout_parent:
  assumes "find_with_ext fs page_extensions (\<lambda>ext. d @ ''/layout'' @ ext) = Some l"
  shows "parent_dir l = d"
proof -
  from find_with_ext_SomeD[OF assms] obtain ext where "ext \<in> set page_extensions"
    "l = d @ ''/layout'' @ ext" by blast
  then show ?thesis using parent_dir_layout by simp
qed


lemma app_tryPath_exists:
  assumes "resolveAppDynamicRoute_tryPath fs a d segs ls ps = Some r"
    and "\<forall>l\<in>set ls. exists fs l"
  shows "\<forall>l\<in>set (layouts r). exists fs l"
  using assms
proof (induction segs arbitrary: d ls ps)
  case Nil
  from Nil.prems(1) show ?case
  proof (cases rule: app_tryPath_Nil_cases)
    case (direct pg)
    then show ?thesis using collectLayout_exists[OF Nil.prems(2)] by simp
  next
    case (group g pg)
    then show ?thesis
      using collectLayout_exists[OF collectLayout_exists[OF Nil.prems(2), of d], of "d @ ''/'' @ g"]
      by simp
  qed
next
  case (Cons c rest)
  have nil: "\<forall>l\<in>set (layouts r). exists fs l"
    if "resolveAppDynamicRoute_tryPath fs a d' [] ls' ps' = Some r"
      and "\<forall>l\<in>set ls'. exists fs l" for d' ls' ps'
    using that(1)
  proof (cases rule: app_tryPath_Nil_cases)
    case (direct pg)
    then show ?thesis using collectLayout_exists[OF that(2)] by simp
  next
    case (group g pg)
    then show ?thesis
      using collectLayout_exists[OF collectLayout_exists[OF that(2), of d'], of "d' @ ''/'' @ g"]
      by simp
  qed
  have sub: "\<forall>l\<in>set (layouts r). exists fs l"
    if "segs = rest \<or> segs = []"
      and "resolveAppDynamicRoute_tryPath fs a d' segs ls' ps' = Some r"
      and "\<forall>l\<in>set ls'. exists fs l" for segs d' ls' ps'
    using that Cons.IH[of d' ls' ps'] nil[of d' ls' ps'] by blast
  from Cons.prems(1) show ?case
  proof (cases rule: app_tryPath_Cons_cases)
    case (direct x segs ps')
    from sub[OF direct(1,2) collectLayout_exists[OF Cons.prems(2)]] show ?thesis .
  next
    case (group g x segs ps')
    from sub[OF group(1,3) collectLayout_exists[OF collectLayout_exists[OF Cons.prems(2)]]]
    show ?thesis .
  qed
qed

text \<open>
  Claim C6, as amended. In every route that \<open>resolveAppDynamicRoute\<close> returns, no layout
  occurs twice; the layouts are ordered root to leaf: each is an existing layout file of a
  directory between the app directory and the directory of the page, and the directory
  of an earlier layout is an ancestor of the directory of a later one; and when the
  project has a root layout, the list starts with it. For segments and directory entries
  that are names (every call from \<open>resolveAppRoute\<close> passes such segments), the list
  leaves out no directory on the way: the first layout file of every directory between
  the app directory and the directory of the page is in the list, below or at the
  directory of the first entry.
\<close>

theorem app_route_layouts_chain:
  assumes "resolveAppDynamicRoute fs appDir segments = Some r"
  shows "distinct (layouts r)
       \<and> root_to_leaf (layouts r)
       \<and> (\<forall>l\<in>set (layouts r). exists fs l \<and> is_layout_file l
                                \<and> is_ancestor appDir (parent_dir l)
                                \<and> is_ancestor (parent_dir l) (parent_dir (page r)))
       \<and> (\<forall>rootLayout.
             find_with_ext fs page_extensions (\<lambda>ext. appDir @ ''/layout'' @ ext) = Some rootLayout
             \<longrightarrow> layouts r \<noteq> [] \<and> hd (layouts r) = rootLayout)
       \<and> (list_all slash_free segments \<and> vfs_names_ok fs \<longrightarrow>
             (\<forall>d l. is_ancestor appDir d \<and> is_ancestor d (parent_dir (page r))
                    \<and> find_with_ext fs page_extensions (\<lambda>ext. d @ ''/layout'' @ ext) = Some l
                    \<longrightarrow> l \<in> set (layouts r)
                        \<and> is_ancestor (parent_dir (hd (layouts r))) d))"
proof -
  let ?l0 = "case find_with_ext fs page_extensions (\<lambda>ext. appDir @ ''/layout'' @ ext) of
               Some rootLayout \<Rightarrow> [rootLayout] | None \<Rightarrow> []"
  from assms have t: "resolveAppDynamicRoute_tryPath fs appDir appDir segments ?l0 [] = Some r"
    by (simp add: resolveAppDynamicRoute_def Let_def)
  from app_tryPath_layouts[OF t root_layouts_inv is_ancestor_refl]
  have inv: "layouts_inv appDir (parent_dir (page r)) (layouts r)"
    and ext: "\<exists>ys. layouts r = ?l0 @ ys" by blast+
  have rtl: "root_to_leaf (layouts r)" using inv by (simp add: layouts_inv_def)
  have "\<forall>l\<in>set ?l0. exists fs l"
    using root_layouts_cover[of fs appDir] by (simp add: layouts_cover_above_def)
  from app_tryPath_exists[OF t this] have ex: "\<forall>l\<in>set (layouts r). exists fs l" .
  have root: "layouts r \<noteq> [] \<and> hd (layouts r) = rootLayout"
    if "find_with_ext fs page_extensions (\<lambda>ext. appDir @ ''/layout'' @ ext) = Some rootLayout"
    for rootLayout
    using ext that by auto
  have cover: "l \<in> set (layouts r) \<and> is_ancestor (parent_dir (hd (layouts r))) d"
    if names: "list_all slash_free segments \<and> vfs_names_ok fs"
      and d: "is_ancestor appDir d \<and> is_ancestor d (parent_dir (page r))
              \<and> find_with_ext fs page_extensions (\<lambda>ext. d @ ''/layout'' @ ext) = Some l"
    for d l
  proof -
    from names have "layouts_cover fs appDir (parent_dir (page r)) (layouts r)"
      using app_tryPath_cover[OF t root_layouts_cover] by blast
    with d have l: "l \<in> set (layouts r)" unfolding layouts_cover_def by blast
    from d have "parent_dir l = d" using first_layout_parent by blast
    with root_to_leaf_hd[OF rtl l] l show ?thesis by simp
  qed
  from inv ex root cover show ?thesis by (simp add: layouts_inv_def)
qed

theorem app_route_layouts_chain_witness:
  "resolveAppDynamicRoute fs_nested_layouts ''/app'' [''dashboard'', ''settings'']
     = Some \<lparr> page = ''/app/dashboard/settings/page.tsx'',
              layouts = [''/app/layout.tsx'', ''/app/dashboard/layout.tsx'',
                         ''/app/dashboard/settings/layout.tsx''],
              params = [], loading = None, error = None, notFound = None \<rparr>
   \<and> resolveAppRoute fs_nested_layouts ''/app'' ''/dashboard/settings''
     = resolveAppDynamicRoute fs_nested_layouts ''/app'' [''dashboard'', ''settings'']
   \<and> find_with_ext fs_nested_layouts page_extensions (\<lambda>ext. ''/app'' @ ''/layout'' @ ext)
     = Some ''/app/layout.tsx''
   \<and> root_to_leaf [''/app/layout.tsx'', ''/app/dashboard/layout.tsx'',
                    ''/app/dashboard/settings/layout.tsx'']
   \<and> list_all slash_free [''dashboard'', ''settings'']
   \<and> vfs_names_ok fs_nested_layouts
   \<and> is_ancestor ''/app'' ''/app/dashboard''
   \<and> is_ancestor ''/app/dashboard'' ''/app/dashboard/settings''
   \<and> find_with_ext fs_nested_layouts page_extensions (\<lambda>ext. ''/app/dashboard'' @ ''/layout'' @ ext)
     = Some ''/app/dashboard/layout.tsx''
   \<and> ''/app/dashboard/layout.tsx'' \<in> set [''/app/layout.tsx'', ''/app/dashboard/layout.tsx'',
                                              ''/app/dashboard/settings/layout.tsx'']"
proof -
  let ?r = "\<lparr> page = ''/app/dashboard/settings/page.tsx'',
              layouts = [''/app/layout.tsx'', ''/app/dashboard/layout.tsx'',
                         ''/app/dashboard/settings/layout.tsx''],
              params = [], loading = None, error = None, notFound = None \<rparr>"
  have res: "resolveAppDynamicRoute fs_nested_layouts ''/app'' [''dashboard'', ''settings''] = Some ?r"
    by code_simp
  have url: "resolveAppRoute fs_nested_layouts ''/app'' ''/dashboard/settings''
     = resolveAppDynamicRoute fs_nested_layouts ''/app'' [''dashboard'', ''settings'']"
    by code_simp
  have root: "find_with_ext fs_nested_layouts page_extensions (\<lambda>ext. ''/app'' @ ''/layout'' @ ext)
     = Some ''/app/layout.tsx''" by code_simp
  have segs: "list_all slash_free [''dashboard'', ''settings'']" by code_simp
  have names: "vfs_names_ok fs_nested_layouts"
    by (simp add: vfs_names_ok_def fs_nested_layouts_def slash_free_def)
  have a1: "is_ancestor ''/app'' ''/app/dashboard''" by code_simp
  have a2: "is_ancestor ''/app/dashboard'' ''/app/dashboard/settings''" by code_simp
  have pd: "parent_dir (page ?r) = ''/app/dashboard/settings''" by code_simp
  have lay: "find_with_ext fs_nested_layouts page_extensions
               (\<lambda>ext. ''/app/dashboard'' @ ''/layout'' @ ext) = Some ''/app/dashboard/layout.tsx''"
    by code_simp
  note T = app_route_layouts_chain[OF res]
  from T have "root_to_leaf (layouts ?r)" by blast
  then have rtl: "root_to_leaf [''/app/layout.tsx'', ''/app/dashboard/layout.tsx'',
                    ''/app/dashboard/settings/layout.tsx'']" by simp
  from T segs names have "\<forall>d l. is_ancestor ''/app'' d \<and> is_ancestor d (parent_dir (page ?r))
                    \<and> find_with_ext fs_nested_layouts page_extensions (\<lambda>ext. d @ ''/layout'' @ ext) = Some l
                    \<longrightarrow> l \<in> set (layouts ?r)
                        \<and> is_ancestor (parent_dir (hd (layouts ?r))) d"
    by blast
  from this[rule_format, of "''/app/dashboard''" "''/app/dashboard/layout.tsx''"] a1 a2 lay
  have "''/app/dashboard/layout.tsx'' \<in> set (layouts ?r)"
    unfolding pd by blast
  then have mem: "''/app/dashboard/layout.tsx'' \<in> set [''/app/layout.tsx'',
      ''/app/dashboard/layout.tsx'', ''/app/dashboard/settings/layout.tsx'']" by simp
  from res url root rtl segs names a1 a2 lay mem show ?thesis by blast
qed

text \<open>
  Claim C6 as stated fails: in a project with no root layout, the first layout of the
  route for \<open>/about\<close> is the layout of \<open>about\<close>, which is not the root layout.
\<close>

theorem app_route_first_layout_counterexample:
  "resolveAppRoute fs_no_root_layout ''/app'' ''/about''
     = Some \<lparr> page = ''/app/about/page.tsx'', layouts = [''/app/about/layout.tsx''],
              params = [], loading = None, error = None, notFound = None \<rparr>
   \<and> find_with_ext fs_no_root_layout page_extensions (\<lambda>ext. ''/app'' @ ''/layout'' @ ext) = None
   \<and> ''/app/about/layout.tsx'' \<notin> set (map (\<lambda>ext. ''/app'' @ ''/layout'' @ ext) page_extensions)"
  by code_simp










end
